theory Spec2Isabelle
  imports Main "HOL-Library.Sublist" "HOL-Library.AList"
begin

section \<open>JavaScript string primitives used by Parser.ts\<close>

text \<open>
  Strings are lists of characters. The model covers strings whose code units are below
  256; the only library calls Parser.ts makes on strings are modelled here:
  \<^verbatim>\<open>s.replace(pat, rep)\<close> with a string pattern (the first occurrence only, the
  replacement containing no dollar pattern), \<^verbatim>\<open>s.split('.')\<close>, \<^verbatim>\<open>pop()\<close>
  and \<^verbatim>\<open>toLowerCase()\<close>. \<open>js_pop\<close> gives \<open>None\<close> for the undefined that
  \<^verbatim>\<open>pop()\<close> returns on an empty array. \<open>toLowerCase\<close> maps A to Z to a to z and
  leaves every other character as it is; JavaScript also lower-cases letters outside
  ASCII, none of them to an ASCII letter, so the comparisons of the classifier with
  \<^verbatim>\<open>py\<close>, \<^verbatim>\<open>js\<close>, \<^verbatim>\<open>cpp\<close>, \<^verbatim>\<open>cs\<close> and \<^verbatim>\<open>java\<close> come out
  the same.
\<close>

fun js_replace :: "string \<Rightarrow> string \<Rightarrow> string \<Rightarrow> string" where
  "js_replace [] pat rep = (if pat = [] then rep else [])"
| "js_replace (c # s) pat rep =
     (if prefix pat (c # s) then rep @ drop (length pat) (c # s)
      else c # js_replace s pat rep)"

fun js_split :: "char \<Rightarrow> string \<Rightarrow> string list" where
  "js_split d [] = [[]]"
| "js_split d (c # s) =
     (if c = d then [] # js_split d s
      else (case js_split d s of
              [] \<Rightarrow> [[c]]
            | seg # segs \<Rightarrow> (c # seg) # segs))"

definition js_pop :: "'a list \<Rightarrow> 'a option" where
  "js_pop xs = (if xs = [] then None else Some (last xs))"

definition lower_char :: "char \<Rightarrow> char" where
  "lower_char c =
     (case map_of (zip ''ABCDEFGHIJKLMNOPQRSTUVWXYZ'' ''abcdefghijklmnopqrstuvwxyz'') c of
        None \<Rightarrow> c
      | Some l \<Rightarrow> l)"

definition toLowerCase :: "string \<Rightarrow> string" where
  "toLowerCase s = map lower_char s"

section \<open>Languages\<close>

datatype Language = CPP | CSHARP | JAVA | PYTHON | JS

fun language_value :: "Language \<Rightarrow> string" where
  "language_value CPP = ''C++''"
| "language_value CSHARP = ''C#''"
| "language_value JAVA = ''Java''"
| "language_value PYTHON = ''Python''"
| "language_value JS = ''Javascript''"

section \<open>The file classifier\<close>

text \<open>
  \<^verbatim>\<open>getFileNameAndLanguage(filepath, basePath)\<close>: the file name is the path with the
  first occurrence of the base path replaced by a dot; the switch runs on the lower-cased
  last dot-separated segment of that name. An undefined language is \<open>None\<close>.
\<close>

definition getFileNameAndLanguage :: "string \<Rightarrow> string \<Rightarrow> string \<times> Language option" where
  "getFileNameAndLanguage filepath basePath =
     (let filename = js_replace filepath basePath ''.'' in
      case map_option toLowerCase (js_pop (js_split (CHR ''.'') filename)) of
        None \<Rightarrow> (filename, None)
      | Some ext \<Rightarrow>
          if ext = ''py'' then (filename, Some PYTHON)
          else if ext = ''js'' then (filename, Some JS)
          else if ext = ''cpp'' then (filename, Some CPP)
          else if ext = ''cs'' then (filename, Some CSHARP)
          else if ext = ''java'' then (filename, Some JAVA)
          else (filename, None))"

section \<open>Node's path.join (POSIX)\<close>

text \<open>
  \<^verbatim>\<open>path.join(a, b)\<close> joins the non-empty arguments with a slash and normalises the
  result: empty and single-dot segments are dropped, a double-dot segment removes the
  segment before it (and is kept in front of a relative path when there is none), a
  leading and a trailing slash are kept.
\<close>

fun normalizeString :: "bool \<Rightarrow> string list \<Rightarrow> string list \<Rightarrow> string list" where
  "normalizeString allowAboveRoot [] res = res"
| "normalizeString allowAboveRoot (seg # segs) res =
     (if seg = [] \<or> seg = ''.'' then normalizeString allowAboveRoot segs res
      else if seg = ''..'' then
        (if res \<noteq> [] \<and> last res \<noteq> ''..''
           then normalizeString allowAboveRoot segs (butlast res)
         else if allowAboveRoot
           then normalizeString allowAboveRoot segs (res @ [''..''])
         else normalizeString allowAboveRoot segs res)
      else normalizeString allowAboveRoot segs (res @ [seg]))"

fun join_segments :: "string list \<Rightarrow> string" where
  "join_segments [] = []"
| "join_segments [seg] = seg"
| "join_segments (seg # segs) = seg @ ''/'' @ join_segments segs"

definition path_normalize :: "string \<Rightarrow> string" where
  "path_normalize p =
     (if p = [] then ''.''
      else
        let isAbsolute = (hd p = CHR ''/'');
            trailingSeparator = (last p = CHR ''/'');
            res = join_segments (normalizeString (\<not> isAbsolute) (js_split (CHR ''/'') p) [])
        in if res = [] then (if isAbsolute then ''/'' else if trailingSeparator then ''./'' else ''.'')
           else (if isAbsolute then ''/'' else []) @ res @ (if trailingSeparator then ''/'' else []))"

definition path_join :: "string \<Rightarrow> string \<Rightarrow> string" where
  "path_join a b =
     (if a = [] \<and> b = [] then ''.''
      else if a = [] then path_normalize b
      else if b = [] then path_normalize a
      else path_normalize (a @ ''/'' @ b))"

section \<open>The file system seen by the tree walk\<close>

text \<open>
  What \<^verbatim>\<open>fs.statSync\<close> and \<^verbatim>\<open>fs.readdirSync\<close> report of a path:
  \<^item> \<open>File\<close>: a regular file (stat succeeds, not a directory);
  \<^item> \<open>Special\<close>: any other non-directory (socket, pipe, device);
  \<^item> \<open>Dir es\<close>: a directory whose listing is the names of \<open>es\<close>, in that order;
  \<^item> \<open>Unreadable\<close>: stat reports a directory, but listing it throws;
  \<^item> \<open>Vanished\<close>: stat throws (the entry was removed or cannot be inspected).
\<close>

datatype node = File | Special | Dir "(string \<times> node) list" | Unreadable | Vanished

datatype error = FsError | BackendFailure

text \<open>
  The regular expression \<^verbatim>\<open>/^.git/\<close>: at the start of the name, one character that is
  not a line terminator, then the letters g, i, t. The line terminators are line feed
  and carriage return (and U+2028, U+2029, which lie outside the characters modelled).
\<close>

definition is_line_terminator :: "char \<Rightarrow> bool" where
  "is_line_terminator c = (c = CHR 0x0A \<or> c = CHR 0x0D)"

fun git_regex_test :: "string \<Rightarrow> bool" where
  "git_regex_test [] = False"
| "git_regex_test (c # s) = (\<not> is_line_terminator c \<and> prefix ''git'' s)"

text \<open>
  \<^verbatim>\<open>recursivelyGetFiles(currDir, acc)\<close>. Listing the directory is the first thing it
  does and the only call that can throw out of it: the callback of \<^verbatim>\<open>forEach\<close>
  catches everything raised by stat and by the nested walk. So when a nested walk
  throws, nothing has been pushed by it, and the accumulator the callback goes on with
  is the one it had. \<open>forEach_entry\<close> is the loop over the listing.
\<close>

fun recursivelyGetFiles :: "string \<Rightarrow> node \<Rightarrow> string list \<Rightarrow> error + string list"
  and forEach_entry :: "string \<Rightarrow> (string \<times> node) list \<Rightarrow> string list \<Rightarrow> string list"
where
  "recursivelyGetFiles currDir (Dir es) acc = Inr (forEach_entry currDir es acc)"
| "recursivelyGetFiles currDir File acc = Inl FsError"
| "recursivelyGetFiles currDir Special acc = Inl FsError"
| "recursivelyGetFiles currDir Unreadable acc = Inl FsError"
| "recursivelyGetFiles currDir Vanished acc = Inl FsError"
| "forEach_entry currDir [] acc = acc"
| "forEach_entry currDir ((file, n) # es) acc =
     (if git_regex_test file then forEach_entry currDir es acc
      else
        let abs_path = path_join currDir file in
        case n of
          Vanished \<Rightarrow> forEach_entry currDir es acc
        | File \<Rightarrow> forEach_entry currDir es (acc @ [abs_path])
        | Special \<Rightarrow> forEach_entry currDir es (acc @ [abs_path])
        | Unreadable \<Rightarrow>
            (case recursivelyGetFiles abs_path n acc of
               Inl e \<Rightarrow> forEach_entry currDir es acc
             | Inr acc' \<Rightarrow> forEach_entry currDir es acc')
        | Dir sub \<Rightarrow>
            (case recursivelyGetFiles abs_path n acc of
               Inl e \<Rightarrow> forEach_entry currDir es acc
             | Inr acc' \<Rightarrow> forEach_entry currDir es acc'))"

text \<open>
  \<^verbatim>\<open>getAllFiles(dir)\<close>; \<open>root\<close> is the object the path handed to the first listing
  resolves to.
\<close>

definition getAllFiles :: "string \<Rightarrow> node \<Rightarrow> error + string list" where
  "getAllFiles dir root = recursivelyGetFiles (js_replace dir [CHR 0x5C] ''/'') root []"

section \<open>Backends and the registry\<close>

definition MIN_FUNCTION_CHARS :: nat where
  "MIN_FUNCTION_CHARS = 0"

definition MIN_METHOD_LINES :: nat where
  "MIN_METHOD_LINES = 0"

text \<open>
  What a call of \<^verbatim>\<open>p.Parse()\<close> can do: throw before it returns, return a promise that
  is rejected, or return a promise that is fulfilled with a value.
\<close>

datatype 'a outcome = Throws error | Rejects error | Fulfils 'a

text \<open>
  Modelled from the spec: the backends (JavascriptParser, PythonParser, XmlParser) and the
  interface \<^verbatim>\<open>IParser\<close> they implement, which Parser.ts imports from modules that
  are not among the sources modelled here. A backend owns a queue of (fileName, basePath)
  pairs and the two minimum sizes it was constructed with. \<open>analyse\<close> stands for what
  the backend's grammar finds in the files of a queue, read with their present content:
  the functions found, each with its number of lines, its number of characters and the
  record it would give, or a failure of the whole call. \<open>parseCalls\<close> is a ghost
  counter of the calls of \<open>Parse\<close>; no operation reads it.
\<close>

record 'h found =
  fn_lines :: nat
  fn_chars :: nat
  fn_hash :: 'h

record 'h IParser =
  minMethodLines :: nat
  minFunctionChars :: nat
  queue :: "(string \<times> string) list"
  analyse :: "(string \<times> string) list \<Rightarrow> 'h found list outcome"
  parseCalls :: nat

text \<open>
  Modelled from the spec: \<^verbatim>\<open>AddFile\<close> enqueues the pair and does nothing else.
\<close>

definition AddFile :: "'h IParser \<Rightarrow> string \<Rightarrow> string \<Rightarrow> 'h IParser" where
  "AddFile p fileName basePath = p\<lparr>queue := queue p @ [(fileName, basePath)]\<rparr>"

text \<open>
  Modelled from the spec: the minimum-size filter every backend applies to a function it
  has found. A function below the minimum in lines or in characters gives no record.
\<close>

definition emit :: "'h IParser \<Rightarrow> 'h found \<Rightarrow> 'h list" where
  "emit p f =
     (if fn_lines f < minMethodLines p \<or> fn_chars f < minFunctionChars p then []
      else [fn_hash f])"

text \<open>
  Modelled from the spec: \<^verbatim>\<open>Parse\<close> processes every file in the queue, passes every
  function found through the minimum-size filter, and clears the queue as part of
  completing the cycle. What is found, for an empty queue too, is left to \<open>analyse\<close>.
  When the call fails the cycle is not completed and the queue is left as it was.
\<close>

definition Parse :: "'h IParser \<Rightarrow> 'h list outcome \<times> 'h IParser" where
  "Parse p =
     (case analyse p (queue p) of
        Throws e \<Rightarrow> (Throws e, p\<lparr>parseCalls := Suc (parseCalls p)\<rparr>)
      | Rejects e \<Rightarrow> (Rejects e, p\<lparr>parseCalls := Suc (parseCalls p)\<rparr>)
      | Fulfils fs \<Rightarrow>
          (Fulfils (concat (map (emit p) fs)),
           p\<lparr>queue := [], parseCalls := Suc (parseCalls p)\<rparr>))"

text \<open>
  Modelled from the spec: the constructors of the three backend classes, which are not
  among the sources either. A new backend has an empty queue and keeps the minimum sizes
  it is given. Parser.ts gives the two grammar-driven backends
  (MIN\_METHOD\_LINES, MIN\_FUNCTION\_CHARS) and the XML backend
  (language, MIN\_FUNCTION\_CHARS, MIN\_METHOD\_LINES); each argument is stored under the
  name of the constant passed for it.
\<close>

definition new_Javascript ::
  "nat \<Rightarrow> nat \<Rightarrow> ((string \<times> string) list \<Rightarrow> 'h found list outcome) \<Rightarrow> 'h IParser" where
  "new_Javascript minLines minChars ex =
     \<lparr>minMethodLines = minLines, minFunctionChars = minChars, queue = [],
      analyse = ex, parseCalls = 0\<rparr>"

definition new_Python ::
  "nat \<Rightarrow> nat \<Rightarrow> ((string \<times> string) list \<Rightarrow> 'h found list outcome) \<Rightarrow> 'h IParser" where
  "new_Python minLines minChars ex =
     \<lparr>minMethodLines = minLines, minFunctionChars = minChars, queue = [],
      analyse = ex, parseCalls = 0\<rparr>"

definition new_XMLParser ::
  "Language \<Rightarrow> nat \<Rightarrow> nat
     \<Rightarrow> (Language \<Rightarrow> (string \<times> string) list \<Rightarrow> 'h found list outcome) \<Rightarrow> 'h IParser" where
  "new_XMLParser l minChars minLines ex =
     \<lparr>minMethodLines = minLines, minFunctionChars = minChars, queue = [],
      analyse = ex l, parseCalls = 0\<rparr>"

text \<open>
  The registry is a JavaScript \<^verbatim>\<open>Map\<close>: an association list in insertion order,
  whose keys are distinct. \<^verbatim>\<open>get\<close> is \<open>map_of\<close>, \<^verbatim>\<open>values()\<close> the second
  components in order, and a backend mutated in place is \<open>AList.update\<close> at its key.
\<close>

type_synonym 'h registry = "(Language \<times> 'h IParser) list"

definition parsers ::
  "(Language \<Rightarrow> (string \<times> string) list \<Rightarrow> 'h found list outcome) \<Rightarrow> 'h registry" where
  "parsers ex =
     [(JS, new_Javascript MIN_METHOD_LINES MIN_FUNCTION_CHARS (ex JS)),
      (PYTHON, new_Python MIN_METHOD_LINES MIN_FUNCTION_CHARS (ex PYTHON)),
      (CPP, new_XMLParser CPP MIN_FUNCTION_CHARS MIN_METHOD_LINES ex),
      (CSHARP, new_XMLParser CSHARP MIN_FUNCTION_CHARS MIN_METHOD_LINES ex),
      (JAVA, new_XMLParser JAVA MIN_FUNCTION_CHARS MIN_METHOD_LINES ex)]"

section \<open>The orchestrator\<close>

text \<open>
  \<open>route_file\<close> is the callback of \<^verbatim>\<open>files.forEach\<close> in \<^verbatim>\<open>ParseFiles\<close>, on
  the state it mutates: the local \<open>filenames\<close> and the backends of the registry. The
  calls of the logger have no effect on either and are left out.
\<close>

definition route_file ::
  "string \<Rightarrow> string list \<times> 'h registry \<Rightarrow> string \<Rightarrow> string list \<times> 'h registry" where
  "route_file basePath st file =
     (case st of (filenames, reg) \<Rightarrow>
      case getFileNameAndLanguage file basePath of (filename, lang) \<Rightarrow>
      case lang of
        None \<Rightarrow> (filenames, reg)
      | Some l \<Rightarrow>
          (case map_of reg l of
             None \<Rightarrow> (filenames @ [filename], reg)
           | Some parser \<Rightarrow>
               (filenames @ [filename], AList.update l (AddFile parser filename basePath) reg)))"

text \<open>
  \<^verbatim>\<open>Array.from(this.parsers.values()).map(p => p.Parse())\<close>: the backends are called
  in the order of the registry. A call that throws leaves \<^verbatim>\<open>map\<close> at once: the
  backends after it are not called, and the throw is the result. Otherwise the result is
  the list of the promises, each as it settles.
\<close>

fun map_Parse :: "'h registry \<Rightarrow> (error + (error + 'h list) list) \<times> 'h registry" where
  "map_Parse [] = (Inr [], [])"
| "map_Parse ((l, p) # rest) =
     (case fst (Parse p) of
        Throws e \<Rightarrow> (Inl e, (l, snd (Parse p)) # rest)
      | Rejects e \<Rightarrow>
          (case fst (map_Parse rest) of
             Inl e' \<Rightarrow> Inl e'
           | Inr promises \<Rightarrow> Inr (Inl e # promises),
           (l, snd (Parse p)) # snd (map_Parse rest))
      | Fulfils hashes \<Rightarrow>
          (case fst (map_Parse rest) of
             Inl e' \<Rightarrow> Inl e'
           | Inr promises \<Rightarrow> Inr (Inr hashes # promises),
           (l, snd (Parse p)) # snd (map_Parse rest)))"

text \<open>
  \<^verbatim>\<open>Promise.all\<close> over promises that have settled: the list of the values when all
  are fulfilled, a rejection when one is rejected. (JavaScript reports the rejection
  that happens first in time, the model the first in the list.)
\<close>

fun promise_all :: "(error + 'a) list \<Rightarrow> error + 'a list" where
  "promise_all [] = Inr []"
| "promise_all (Inl e # ps) = Inl e"
| "promise_all (Inr v # ps) =
     (case promise_all ps of Inl e \<Rightarrow> Inl e | Inr vs \<Rightarrow> Inr (v # vs))"

text \<open>
  The part of \<^verbatim>\<open>ParseFiles\<close> after the walk: route every file, call \<^verbatim>\<open>Parse\<close>
  on the values of the registry, await the promises, flatten. A throw out of \<^verbatim>\<open>map\<close>
  rejects the promise of \<^verbatim>\<open>ParseFiles\<close>, as a rejected promise does. The result is
  the outcome of the promise and the registry as the calls leave it.
\<close>

definition ParseFiles_on ::
  "string \<Rightarrow> 'h registry \<Rightarrow> string list
     \<Rightarrow> (error + string list \<times> 'h list) \<times> 'h registry" where
  "ParseFiles_on basePath reg files =
     (case foldl (route_file basePath) ([], reg) files of (filenames, reg1) \<Rightarrow>
      case map_Parse reg1 of (mapped, reg2) \<Rightarrow>
      case mapped of
        Inl e \<Rightarrow> (Inl e, reg2)
      | Inr parserPromises \<Rightarrow>
          (case promise_all parserPromises of
             Inl e \<Rightarrow> (Inl e, reg2)
           | Inr parserResults \<Rightarrow> (Inr (filenames, concat parserResults), reg2)))"

definition ParseFiles ::
  "node \<Rightarrow> string \<Rightarrow> 'h registry \<Rightarrow> (error + string list \<times> 'h list) \<times> 'h registry" where
  "ParseFiles root basePath reg =
     (case getAllFiles basePath root of
        Inl e \<Rightarrow> (Inl e, reg)
      | Inr files \<Rightarrow> ParseFiles_on basePath reg files)"

section \<open>Notions used to state the properties\<close>

text \<open>The relative names of the files whose language is recognised, in order.\<close>

definition recognised_names :: "string \<Rightarrow> string list \<Rightarrow> string list" where
  "recognised_names basePath files =
     map (\<lambda>f. fst (getFileNameAndLanguage f basePath))
       (filter (\<lambda>f. snd (getFileNameAndLanguage f basePath) \<noteq> None) files)"

text \<open>
  The paths the walk reaches from a directory: the entries that are not directories and
  can be inspected, under names the regular expression does not match, at any depth.
\<close>

inductive walk_reaches :: "string \<Rightarrow> node \<Rightarrow> string \<Rightarrow> bool" where
  here: "(name, n) \<in> set es \<Longrightarrow> \<not> git_regex_test name \<Longrightarrow> n = File \<or> n = Special
           \<Longrightarrow> walk_reaches currDir (Dir es) (path_join currDir name)"
| below: "(name, Dir sub) \<in> set es \<Longrightarrow> \<not> git_regex_test name
           \<Longrightarrow> walk_reaches (path_join currDir name) (Dir sub) p
           \<Longrightarrow> walk_reaches currDir (Dir es) p"

text \<open>
  The set the specification's completeness property names, in its words: the regular
  files reachable recursively from the root whose name, and the names of the directories
  on the way, are not version-control metadata (\<^verbatim>\<open>.git*\<close>).
\<close>

definition vcs_metadata :: "string \<Rightarrow> bool" where
  "vcs_metadata name = prefix ''.git'' name"

inductive spec_reachable :: "string \<Rightarrow> node \<Rightarrow> string \<Rightarrow> bool" where
  spec_here: "(name, File) \<in> set es \<Longrightarrow> \<not> vcs_metadata name
           \<Longrightarrow> spec_reachable currDir (Dir es) (path_join currDir name)"
| spec_below: "(name, Dir sub) \<in> set es \<Longrightarrow> \<not> vcs_metadata name
           \<Longrightarrow> spec_reachable (path_join currDir name) (Dir sub) p
           \<Longrightarrow> spec_reachable currDir (Dir es) p"

text \<open>
  A tree of regular files and directories only (inspectable or not), in which the
  regular expression matches no name but those that begin with \<^verbatim>\<open>.git\<close>.
\<close>

fun plain :: "node \<Rightarrow> bool"
  and plain_entries :: "(string \<times> node) list \<Rightarrow> bool"
where
  "plain (Dir es) = plain_entries es"
| "plain File = True"
| "plain Special = False"
| "plain Unreadable = True"
| "plain Vanished = True"
| "plain_entries [] = True"
| "plain_entries ((name, n) # es) =
     ((git_regex_test name \<longrightarrow> vcs_metadata name) \<and> plain n \<and> plain_entries es)"

text \<open>A tree with every entry that cannot be inspected or listed removed, at any depth.\<close>

fun prune :: "node \<Rightarrow> node"
  and prune_entries :: "(string \<times> node) list \<Rightarrow> (string \<times> node) list"
where
  "prune (Dir es) = Dir (prune_entries es)"
| "prune File = File"
| "prune Special = Special"
| "prune Unreadable = Unreadable"
| "prune Vanished = Vanished"
| "prune_entries [] = []"
| "prune_entries ((name, n) # es) =
     (if n = Vanished \<or> n = Unreadable then prune_entries es
      else (name, prune n) # prune_entries es)"

text \<open>The registry when every file of the walk has been routed.\<close>

definition routed :: "string \<Rightarrow> 'h registry \<Rightarrow> string list \<Rightarrow> 'h registry" where
  "routed basePath reg files = snd (foldl (route_file basePath) ([], reg) files)"

text \<open>
  How many backends of a registry are called: all of them, or those up to and including
  the first whose call throws.
\<close>

fun called :: "'h registry \<Rightarrow> nat" where
  "called [] = 0"
| "called ((l, p) # rest) =
     (case fst (Parse p) of
        Throws e \<Rightarrow> Suc 0
      | Rejects e \<Rightarrow> Suc (called rest)
      | Fulfils hashes \<Rightarrow> Suc (called rest))"

section \<open>Sample collaborators for the examples\<close>

text \<open>
  A grammar that finds one function of five lines and eighty characters in every queued
  file, its record naming the language and the file; one whose Python extraction is
  rejected as a whole; and one whose Javascript extraction throws.
\<close>

definition sample_grammar ::
  "Language \<Rightarrow> (string \<times> string) list \<Rightarrow> string found list outcome" where
  "sample_grammar l q =
     Fulfils (map (\<lambda>fb. \<lparr>fn_lines = 5, fn_chars = 80,
                          fn_hash = language_value l @ '':'' @ fst fb\<rparr>) q)"

definition failing_grammar ::
  "Language \<Rightarrow> (string \<times> string) list \<Rightarrow> string found list outcome" where
  "failing_grammar l q = (if l = PYTHON then Rejects BackendFailure else sample_grammar l q)"

definition throwing_grammar ::
  "Language \<Rightarrow> (string \<times> string) list \<Rightarrow> string found list outcome" where
  "throwing_grammar l q = (if l = JS then Throws BackendFailure else sample_grammar l q)"

text \<open>A grammar that finds the same four functions, of different sizes, whatever the queue.\<close>

definition sized_grammar ::
  "Language \<Rightarrow> (string \<times> string) list \<Rightarrow> string found list outcome" where
  "sized_grammar l q =
     Fulfils [\<lparr>fn_lines = 2, fn_chars = 50, fn_hash = ''short''\<rparr>,
              \<lparr>fn_lines = 3, fn_chars = 9, fn_hash = ''thin''\<rparr>,
              \<lparr>fn_lines = 3, fn_chars = 10, fn_hash = ''edge''\<rparr>,
              \<lparr>fn_lines = 7, fn_chars = 90, fn_hash = ''large''\<rparr>]"

section \<open>The tree walk\<close>

lemma forEach_entry_append:
  "forEach_entry cur (es1 @ es2) acc = forEach_entry cur es2 (forEach_entry cur es1 acc)"
proof (induction es1 arbitrary: acc)
  case Nil
  show ?case by simp
next
  case (Cons e es1)
  obtain name n where e: "e = (name, n)" by (cases e)
  show ?case unfolding e
    by (cases n) (simp_all add: Cons.IH Let_def)
qed

lemma walk_prune_aux:
  fixes d :: "string list"
  shows "\<forall>acc. recursivelyGetFiles cur n acc = recursivelyGetFiles cur (prune n) acc"
    and "\<forall>acc. forEach_entry cur es acc = forEach_entry cur (prune_entries es) acc"
proof (induction cur n d and cur es d rule: recursivelyGetFiles_forEach_entry.induct)
  case (7 currDir name n es acc)
  show ?case
  proof (cases "git_regex_test name")
    case True
    with 7 show ?thesis by simp
  next
    case False
    with 7 show ?thesis
      by (cases n) (simp_all add: Let_def)
  qed
qed simp_all

lemma walk_reaches_Nil: "\<not> walk_reaches cur (Dir []) p"
proof
  assume "walk_reaches cur (Dir []) p"
  then show False by (cases rule: walk_reaches.cases) simp_all
qed

lemma walk_reaches_Cons:
  "walk_reaches cur (Dir ((name, n) # es)) p \<longleftrightarrow>
     (\<not> git_regex_test name \<and>
        ((n = File \<or> n = Special) \<and> p = path_join cur name
         \<or> (\<exists>sub. n = Dir sub \<and> walk_reaches (path_join cur name) (Dir sub) p)))
     \<or> walk_reaches cur (Dir es) p"
  (is "?L \<longleftrightarrow> ?R")
proof
  assume ?L
  then show ?R
  proof (cases rule: walk_reaches.cases)
    case (here name' n')
    from here(2) have "(name', n') = (name, n) \<or> (name', n') \<in> set es" by simp
    then show ?thesis
    proof
      assume "(name', n') = (name, n)"
      with here show ?thesis by simp
    next
      assume "(name', n') \<in> set es"
      then have "walk_reaches cur (Dir es) (path_join cur name')"
        using here(3,4) by (rule walk_reaches.here)
      with here(1) show ?thesis by simp
    qed
  next
    case (below name' sub)
    from below(1) have "(name', Dir sub) = (name, n) \<or> (name', Dir sub) \<in> set es" by simp
    then show ?thesis
    proof
      assume "(name', Dir sub) = (name, n)"
      with below show ?thesis by auto
    next
      assume "(name', Dir sub) \<in> set es"
      then have "walk_reaches cur (Dir es) p"
        using below(2,3) by (rule walk_reaches.below)
      then show ?thesis by simp
    qed
  qed
next
  assume r: ?R
  have mono: "walk_reaches cur (Dir es) p \<Longrightarrow> walk_reaches cur (Dir ((name, n) # es)) p"
  proof -
    assume "walk_reaches cur (Dir es) p"
    then show ?thesis
    proof (cases rule: walk_reaches.cases)
      case (here name' n')
      have "(name', n') \<in> set ((name, n) # es)" using here(2) by simp
      then have "walk_reaches cur (Dir ((name, n) # es)) (path_join cur name')"
        using here(3,4) by (rule walk_reaches.here)
      with here(1) show ?thesis by simp
    next
      case (below name' sub)
      have "(name', Dir sub) \<in> set ((name, n) # es)" using below(1) by simp
      then show ?thesis using below(2,3) by (rule walk_reaches.below)
    qed
  qed
  from r consider
      (a) "\<not> git_regex_test name" "n = File \<or> n = Special" "p = path_join cur name"
    | (b) sub where "\<not> git_regex_test name" "n = Dir sub"
          "walk_reaches (path_join cur name) (Dir sub) p"
    | (c) "walk_reaches cur (Dir es) p"
    by blast
  then show ?L
  proof cases
    case a
    have "(name, n) \<in> set ((name, n) # es)" by simp
    then have "walk_reaches cur (Dir ((name, n) # es)) (path_join cur name)"
      using a(1,2) by (rule walk_reaches.here)
    with a(3) show ?thesis by simp
  next
    case b
    have "(name, Dir sub) \<in> set ((name, n) # es)" using b(2) by simp
    then show ?thesis using b(1,3) by (rule walk_reaches.below)
  next
    case c
    then show ?thesis by (rule mono)
  qed
qed

lemma walk_set_aux:
  fixes d :: "string list"
  shows "\<forall>acc. \<forall>es. n = Dir es \<longrightarrow> (\<exists>r. recursivelyGetFiles cur n acc = Inr r \<and> set r = set acc \<union> {p. walk_reaches cur (Dir es) p})"
    and "\<forall>acc. set (forEach_entry cur es acc) = set acc \<union> {p. walk_reaches cur (Dir es) p}"
proof (induction cur n d and cur es d rule: recursivelyGetFiles_forEach_entry.induct)
  case (6 currDir acc)
  show ?case by (simp add: walk_reaches_Nil)
next
  case (7 currDir name n es acc)
  show ?case
  proof (cases "git_regex_test name")
    case True
    with 7 show ?thesis by (simp add: walk_reaches_Cons)
  next
    case False
    with 7 show ?thesis
      by (cases n) (auto simp add: Let_def walk_reaches_Cons)
  qed
qed simp_all

lemma getAllFiles_Dir:
  "getAllFiles dir (Dir es) = Inr (forEach_entry (js_replace dir [CHR 0x5C] ''/'') es [])"
  by (simp add: getAllFiles_def)

lemma forEach_entry_skip_unstable:
  "n = Vanished \<or> n = Unreadable \<Longrightarrow>
   forEach_entry cur (es1 @ (name, n) # es2) acc = forEach_entry cur (es1 @ es2) acc"
  by (auto simp add: forEach_entry_append Let_def)

lemma forEach_entry_skip_git:
  "git_regex_test name \<Longrightarrow>
   forEach_entry cur (es1 @ (name, n) # es2) acc = forEach_entry cur (es1 @ es2) acc"
  by (simp add: forEach_entry_append)

lemma git_regex_test_iff:
  "git_regex_test name \<longleftrightarrow>
     (\<exists>c rest. \<not> is_line_terminator c \<and> name = c # ''git'' @ rest)"
proof (cases name)
  case Nil
  then show ?thesis by simp
next
  case (Cons c s)
  then show ?thesis by (auto simp add: prefix_def)
qed

text \<open>
  C7. An entry that cannot be inspected (stat throws), or a directory that cannot be
  listed, is left out without a trace: the loop over a listing gives the same files with
  or without it, at any depth, and the walk of a readable root directory always returns.
\<close>

theorem unstable_entry_is_skipped:
  "(n = Vanished \<or> n = Unreadable \<longrightarrow>
      forEach_entry cur (es1 @ (name, n) # es2) acc = forEach_entry cur (es1 @ es2) acc)
   \<and> getAllFiles dir (Dir es) = getAllFiles dir (prune (Dir es))
   \<and> (\<exists>files. getAllFiles dir (Dir es) = Inr files)"
proof (intro conjI impI)
  assume "n = Vanished \<or> n = Unreadable"
  then show "forEach_entry cur (es1 @ (name, n) # es2) acc = forEach_entry cur (es1 @ es2) acc"
    by (rule forEach_entry_skip_unstable)
next
  show "getAllFiles dir (Dir es) = getAllFiles dir (prune (Dir es))"
    unfolding getAllFiles_def using walk_prune_aux(1) by blast
next
  show "\<exists>files. getAllFiles dir (Dir es) = Inr files"
    by (simp add: getAllFiles_Dir)
qed

theorem unstable_entry_is_skipped_witness:
  "forEach_entry ''/r'' ([(''a.js'', File)] @ (''gone'', Vanished) # [(''b.py'', File)]) []
     = [''/r/a.js'', ''/r/b.py'']
   \<and> getAllFiles ''/r'' (Dir [(''sub'', Dir [(''gone'', Vanished), (''c.cs'', File)])])
     = Inr [''/r/sub/c.cs'']"
proof -
  have v: "Vanished = Vanished \<or> Vanished = Unreadable" by simp
  have "forEach_entry ''/r'' ([(''a.js'', File)] @ (''gone'', Vanished) # [(''b.py'', File)]) []
          = forEach_entry ''/r'' ([(''a.js'', File)] @ [(''b.py'', File)]) []"
    using unstable_entry_is_skipped
      [of Vanished "''/r''" "[(''a.js'', File)]" "''gone''" "[(''b.py'', File)]" "[]"] v
    by blast
  also have "\<dots> = [''/r/a.js'', ''/r/b.py'']"
    by (simp add: path_join_def path_normalize_def)
  finally have first: "forEach_entry ''/r''
      ([(''a.js'', File)] @ (''gone'', Vanished) # [(''b.py'', File)]) [] = [''/r/a.js'', ''/r/b.py'']" .
  have "getAllFiles ''/r'' (Dir [(''sub'', Dir [(''gone'', Vanished), (''c.cs'', File)])])
          = getAllFiles ''/r'' (prune (Dir [(''sub'', Dir [(''gone'', Vanished), (''c.cs'', File)])]))"
    using unstable_entry_is_skipped
      [of Vanished "''/r''" "[]" "''x''" "[]" "[]" "''/r''"
          "[(''sub'', Dir [(''gone'', Vanished), (''c.cs'', File)])]"]
    by blast
  also have "\<dots> = Inr [''/r/sub/c.cs'']"
    by (simp add: getAllFiles_def path_join_def path_normalize_def)
  finally show ?thesis using first by simp
qed

text \<open>
  C10, as the code has it. The walk leaves out every entry whose name matches
  \<^verbatim>\<open>/^.git/\<close>: a first character that is not a line terminator, followed by the
  letters g, i, t. Such an entry is neither descended into nor returned, whatever it is.
\<close>

theorem git_pattern_entry_is_skipped:
  "(git_regex_test name \<longleftrightarrow>
      (\<exists>c rest. \<not> is_line_terminator c \<and> name = c # ''git'' @ rest))
   \<and> (git_regex_test name \<longrightarrow>
        forEach_entry cur (es1 @ (name, n) # es2) acc = forEach_entry cur (es1 @ es2) acc
        \<and> getAllFiles dir (Dir (es1 @ (name, n) # es2)) = getAllFiles dir (Dir (es1 @ es2)))"
proof (intro conjI impI)
  show "git_regex_test name \<longleftrightarrow>
      (\<exists>c rest. \<not> is_line_terminator c \<and> name = c # ''git'' @ rest)"
    by (rule git_regex_test_iff)
next
  assume "git_regex_test name"
  then show "forEach_entry cur (es1 @ (name, n) # es2) acc = forEach_entry cur (es1 @ es2) acc"
    by (rule forEach_entry_skip_git)
next
  assume "git_regex_test name"
  then show "getAllFiles dir (Dir (es1 @ (name, n) # es2)) = getAllFiles dir (Dir (es1 @ es2))"
    by (simp add: getAllFiles_Dir forEach_entry_skip_git)
qed

theorem git_pattern_entry_is_skipped_witness:
  "git_regex_test ''agit.js''
   \<and> getAllFiles ''/r'' (Dir ([(''a.js'', File)] @ (''agit.js'', File) # [(''xgit'', Dir [(''b.py'', File)])]))
     = Inr [''/r/a.js'']"
proof -
  have g: "git_regex_test ''agit.js''"
    using git_pattern_entry_is_skipped [of "''agit.js''"]
    by (simp add: is_line_terminator_def)
  have "getAllFiles ''/r'' (Dir ([(''a.js'', File)] @ (''agit.js'', File) # [(''xgit'', Dir [(''b.py'', File)])]))
          = getAllFiles ''/r'' (Dir ([(''a.js'', File)] @ [(''xgit'', Dir [(''b.py'', File)])]))"
    using git_pattern_entry_is_skipped
      [of "''agit.js''" "''/r''" "[(''a.js'', File)]" File "[(''xgit'', Dir [(''b.py'', File)])]" "[]" "''/r''"] g
    by blast
  also have "\<dots> = Inr [''/r/a.js'']"
    by (simp add: getAllFiles_def path_join_def path_normalize_def is_line_terminator_def)
  finally show ?thesis using g by simp
qed

text \<open>
  C10 as it is worded fails where the first character is a line feed: the regular
  expression's dot does not match it, and the file is returned.
\<close>

theorem git_pattern_newline_counterexample:
  "getAllFiles ''/r'' (Dir [(CHR 0x0A # ''git'', File)]) = Inr [''/r/'' @ CHR 0x0A # ''git'']"
  by (simp add: getAllFiles_def path_join_def path_normalize_def is_line_terminator_def)

section \<open>The classifier\<close>







lemma fst_getFileNameAndLanguage:
  "fst (getFileNameAndLanguage filepath basePath) = js_replace filepath basePath ''.''"
  by (simp add: getFileNameAndLanguage_def Let_def split: option.splits)






section \<open>Routing and joining\<close>

lemma route_file_unsupported:
  "snd (getFileNameAndLanguage f b) = None \<Longrightarrow> route_file b st f = st"
  by (cases st; cases "getFileNameAndLanguage f b") (simp add: route_file_def)

lemma route_file_unregistered:
  "getFileNameAndLanguage f b = (fn, Some l) \<Longrightarrow> map_of reg l = None \<Longrightarrow>
   route_file b (fns, reg) f = (fns @ [fn], reg)"
  by (simp add: route_file_def)

lemma route_file_registered:
  "getFileNameAndLanguage f b = (fn, Some l) \<Longrightarrow> map_of reg l = Some p \<Longrightarrow>
   route_file b (fns, reg) f = (fns @ [fn], AList.update l (AddFile p fn b) reg)"
  by (simp add: route_file_def)

lemma recognised_names_Nil: "recognised_names b [] = []"
  by (simp add: recognised_names_def)

lemma recognised_names_Cons:
  "recognised_names b (f # fs) =
     (if snd (getFileNameAndLanguage f b) = None then recognised_names b fs
      else fst (getFileNameAndLanguage f b) # recognised_names b fs)"
  by (simp add: recognised_names_def)

lemma recognised_names_append:
  "recognised_names b (xs @ ys) = recognised_names b xs @ recognised_names b ys"
  by (simp add: recognised_names_def)

lemma fst_route_file:
  "fst (route_file b (fns, reg) f) = fns @ recognised_names b [f]"
  by (cases "getFileNameAndLanguage f b")
     (simp add: route_file_def recognised_names_def split: option.splits)

lemma keys_route_file:
  "map fst (snd (route_file b (fns, reg) f)) = map fst reg"
proof (cases "getFileNameAndLanguage f b")
  case (Pair fn lang)
  show ?thesis
  proof (cases lang)
    case None
    with Pair show ?thesis by (simp add: route_file_def)
  next
    case (Some l)
    show ?thesis
    proof (cases "map_of reg l")
      case None
      with Pair Some show ?thesis by (simp add: route_file_def)
    next
      case (Some p)
      then have "l \<in> fst ` set reg" by (metis map_of_eq_None_iff option.distinct(1))
      with Pair \<open>lang = Some l\<close> Some show ?thesis
        by (simp add: route_file_def update_keys)
    qed
  qed
qed

lemma foldl_route_fst:
  "fst (foldl (route_file b) (fns, reg) files) = fns @ recognised_names b files"
proof (induction files arbitrary: fns reg)
  case Nil
  show ?case by (simp add: recognised_names_Nil)
next
  case (Cons f files)
  obtain fns' reg' where r: "route_file b (fns, reg) f = (fns', reg')"
    by (cases "route_file b (fns, reg) f")
  then have "fns' = fns @ recognised_names b [f]"
    using fst_route_file [of b fns reg f] by simp
  then show ?case
    using Cons.IH [of fns' reg'] r
    by (simp add: recognised_names_Cons recognised_names_Nil)
qed

lemma snd_route_file_indep:
  "snd (route_file b (fns, reg) f) = snd (route_file b (fns', reg) f)"
  by (cases "getFileNameAndLanguage f b") (simp add: route_file_def split: option.splits)

lemma foldl_route_snd_indep:
  "snd (foldl (route_file b) (fns, reg) files) = snd (foldl (route_file b) (fns', reg) files)"
proof (induction files arbitrary: fns fns' reg)
  case Nil
  show ?case by simp
next
  case (Cons f files)
  obtain a r where 1: "route_file b (fns, reg) f = (a, r)"
    by (cases "route_file b (fns, reg) f")
  obtain a' r' where 2: "route_file b (fns', reg) f = (a', r')"
    by (cases "route_file b (fns', reg) f")
  have "r = r'" using snd_route_file_indep [of b fns reg f fns'] 1 2 by simp
  then show ?case using Cons.IH [of a r a'] 1 2 by simp
qed

lemma foldl_route_keys:
  "map fst (snd (foldl (route_file b) (fns, reg) files)) = map fst reg"
proof (induction files arbitrary: fns reg)
  case Nil
  show ?case by simp
next
  case (Cons f files)
  obtain a r where 1: "route_file b (fns, reg) f = (a, r)"
    by (cases "route_file b (fns, reg) f")
  then have "map fst r = map fst reg" using keys_route_file [of b fns reg f] by simp
  then show ?case using Cons.IH [of a r] 1 by simp
qed

lemma map_value_update:
  "map (\<lambda>(k, v). (k, g v)) (AList.update l p reg) = AList.update l (g p) (map (\<lambda>(k, v). (k, g v)) reg)"
  by (induction reg) auto

lemma route_file_clears:
  "map (\<lambda>(l, p). (l, p\<lparr>queue := []\<rparr>)) (snd (route_file b (fns, reg) f))
     = map (\<lambda>(l, p). (l, p\<lparr>queue := []\<rparr>)) reg"
proof (cases "getFileNameAndLanguage f b")
  case (Pair fn lang)
  show ?thesis
  proof (cases lang)
    case None
    with Pair show ?thesis by (simp add: route_file_def)
  next
    case (Some l)
    show ?thesis
    proof (cases "map_of reg l")
      case None
      with Pair Some show ?thesis by (simp add: route_file_def)
    next
      case (Some p)
      have "map_of (map (\<lambda>(l, p). (l, p\<lparr>queue := []\<rparr>)) reg) l = Some (p\<lparr>queue := []\<rparr>)"
        using Some by (simp add: map_of_map)
      then have "AList.update l (p\<lparr>queue := []\<rparr>) (map (\<lambda>(l, p). (l, p\<lparr>queue := []\<rparr>)) reg)
          = map (\<lambda>(l, p). (l, p\<lparr>queue := []\<rparr>)) reg"
        by (rule update_triv)
      with Pair \<open>lang = Some l\<close> Some show ?thesis
        by (simp add: route_file_def map_value_update AddFile_def)
    qed
  qed
qed

lemma foldl_route_clears:
  "map (\<lambda>(l, p). (l, p\<lparr>queue := []\<rparr>)) (snd (foldl (route_file b) (fns, reg) files))
     = map (\<lambda>(l, p). (l, p\<lparr>queue := []\<rparr>)) reg"
proof (induction files arbitrary: fns reg)
  case Nil
  show ?case by simp
next
  case (Cons f files)
  obtain a r where 1: "route_file b (fns, reg) f = (a, r)"
    by (cases "route_file b (fns, reg) f")
  then have "map (\<lambda>(l, p). (l, p\<lparr>queue := []\<rparr>)) r = map (\<lambda>(l, p). (l, p\<lparr>queue := []\<rparr>)) reg"
    using route_file_clears [of b fns reg f] by simp
  then show ?case using Cons.IH [of a r] 1 by simp
qed

lemma promise_all_Inl_iff:
  "(\<exists>e. promise_all ps = Inl e) \<longleftrightarrow> (\<exists>e. Inl e \<in> set ps)"
  by (induction ps rule: promise_all.induct) (auto split: sum.splits)

lemma promise_all_Inr:
  "(\<forall>x \<in> set xs. f x = Inr (g x)) \<Longrightarrow> promise_all (map f xs) = Inr (map g xs)"
  by (induction xs) auto

lemma promise_all_InrD:
  "promise_all ps = Inr vs \<Longrightarrow> ps = map Inr vs"
  by (induction ps arbitrary: vs rule: promise_all.induct) (auto split: sum.splits)

lemma parseCalls_Parse: "parseCalls (snd (Parse p)) = Suc (parseCalls p)"
  by (simp add: Parse_def split: outcome.splits)

lemma map_Parse_keys: "map fst (snd (map_Parse reg)) = map fst reg"
proof (induction reg)
  case Nil
  show ?case by simp
next
  case (Cons lp reg)
  obtain l p where lp: "lp = (l, p)" by (cases lp)
  show ?case unfolding lp using Cons.IH
    by (cases "fst (Parse p)") simp_all
qed

lemma map_Parse_calls:
  "map (\<lambda>(l, p). parseCalls p) (snd (map_Parse reg))
     = map Suc (take (called reg) (map (\<lambda>(l, p). parseCalls p) reg))
       @ drop (called reg) (map (\<lambda>(l, p). parseCalls p) reg)"
proof (induction reg)
  case Nil
  show ?case by simp
next
  case (Cons lp reg)
  obtain l p where lp: "lp = (l, p)" by (cases lp)
  show ?case unfolding lp using Cons.IH
    by (cases "fst (Parse p)") (simp_all add: parseCalls_Parse)
qed

lemma map_Parse_thrown:
  "(l, p) \<in> set reg \<Longrightarrow> fst (Parse p) = Throws e \<Longrightarrow> \<exists>e'. fst (map_Parse reg) = Inl e'"
proof (induction reg)
  case Nil
  then show ?case by simp
next
  case (Cons lp reg)
  obtain l' p' where lp: "lp = (l', p')" by (cases lp)
  show ?case
  proof (cases "fst (Parse p')")
    case (Throws e')
    then show ?thesis unfolding lp by simp
  next
    case (Rejects e')
    show ?thesis
    proof (cases "(l, p) = (l', p')")
      case True
      with Rejects Cons.prems(2) show ?thesis by simp
    next
      case False
      with Cons.prems(1) lp have "(l, p) \<in> set reg" by auto
      then obtain e'' where "fst (map_Parse reg) = Inl e''"
        using Cons.IH Cons.prems(2) by blast
      with Rejects show ?thesis unfolding lp by simp
    qed
  next
    case (Fulfils hs)
    show ?thesis
    proof (cases "(l, p) = (l', p')")
      case True
      with Fulfils Cons.prems(2) show ?thesis by simp
    next
      case False
      with Cons.prems(1) lp have "(l, p) \<in> set reg" by auto
      then obtain e'' where "fst (map_Parse reg) = Inl e''"
        using Cons.IH Cons.prems(2) by blast
      with Fulfils show ?thesis unfolding lp by simp
    qed
  qed
qed

lemma map_Parse_rejected:
  "(l, p) \<in> set reg \<Longrightarrow> fst (Parse p) = Rejects e \<Longrightarrow> fst (map_Parse reg) = Inr promises \<Longrightarrow>
   Inl e \<in> set promises"
proof (induction reg arbitrary: promises)
  case Nil
  then show ?case by simp
next
  case (Cons lp reg)
  obtain l' p' where lp: "lp = (l', p')" by (cases lp)
  from Cons.prems(3) obtain pr rest where
    pr: "promises = pr # rest" and rest: "fst (map_Parse reg) = Inr rest"
      and hd: "(\<exists>e'. fst (Parse p') = Rejects e' \<and> pr = Inl e')
               \<or> (\<exists>hs. fst (Parse p') = Fulfils hs \<and> pr = Inr hs)"
    unfolding lp by (cases "fst (Parse p')") (auto split: sum.splits)
  show ?case
  proof (cases "(l, p) = (l', p')")
    case True
    with hd Cons.prems(2) pr show ?thesis by auto
  next
    case False
    with Cons.prems(1) lp have "(l, p) \<in> set reg" by auto
    then have "Inl e \<in> set rest" using Cons.prems(2) rest by (rule Cons.IH)
    with pr show ?thesis by simp
  qed
qed

lemma map_Parse_no_throw:
  "(\<forall>lp \<in> set reg. \<forall>e. fst (Parse (snd lp)) \<noteq> Throws e) \<Longrightarrow>
   snd (map_Parse reg) = map (\<lambda>(l, p). (l, snd (Parse p))) reg \<and> called reg = length reg"
proof (induction reg)
  case Nil
  show ?case by simp
next
  case (Cons lp reg)
  obtain l p where lp: "lp = (l, p)" by (cases lp)
  from Cons.prems have "\<forall>e. fst (Parse p) \<noteq> Throws e" unfolding lp by simp
  moreover from Cons.prems have "\<forall>lp \<in> set reg. \<forall>e. fst (Parse (snd lp)) \<noteq> Throws e" by simp
  ultimately show ?case unfolding lp using Cons.IH
    by (cases "fst (Parse p)") simp_all
qed

lemma map_Parse_fulfilled:
  "(\<forall>lp \<in> set reg. fst (Parse (snd lp)) = Fulfils (R lp)) \<Longrightarrow>
   fst (map_Parse reg) = Inr (map (\<lambda>lp. Inr (R lp)) reg)"
proof (induction reg)
  case Nil
  show ?case by simp
next
  case (Cons lp reg)
  obtain l p where lp: "lp = (l, p)" by (cases lp)
  from Cons.prems have "fst (Parse p) = Fulfils (R (l, p))" unfolding lp by simp
  moreover from Cons.prems have "fst (map_Parse reg) = Inr (map (\<lambda>lp. Inr (R lp)) reg)"
    by (simp add: Cons.IH)
  ultimately show ?case unfolding lp by simp
qed

lemma map_Parse_all_fulfilled:
  "fst (map_Parse reg) = Inr promises \<Longrightarrow> promises = map Inr rs \<Longrightarrow>
   \<forall>lp \<in> set reg. \<exists>hs. fst (Parse (snd lp)) = Fulfils hs"
proof (induction reg arbitrary: promises rs)
  case Nil
  show ?case by simp
next
  case (Cons lp reg)
  obtain l p where lp: "lp = (l, p)" by (cases lp)
  from Cons.prems(1) obtain pr rest where
    pr: "promises = pr # rest" and rest: "fst (map_Parse reg) = Inr rest"
      and hd: "(\<exists>e'. fst (Parse p) = Rejects e' \<and> pr = Inl e')
               \<or> (\<exists>hs. fst (Parse p) = Fulfils hs \<and> pr = Inr hs)"
    unfolding lp by (cases "fst (Parse p)") (auto split: sum.splits)
  from pr Cons.prems(2) obtain r rs' where rs: "rs = r # rs'" "pr = Inr r" "rest = map Inr rs'"
    by (cases rs) auto
  from hd rs(2) have "\<exists>hs. fst (Parse p) = Fulfils hs" by auto
  moreover have "\<forall>lp \<in> set reg. \<exists>hs. fst (Parse (snd lp)) = Fulfils hs"
    using rest rs(3) by (rule Cons.IH)
  ultimately show ?case unfolding lp by simp
qed

lemma fst_map_Parse_cong:
  "map (\<lambda>lp. fst (Parse (snd lp))) r = map (\<lambda>lp. fst (Parse (snd lp))) r' \<Longrightarrow>
   fst (map_Parse r) = fst (map_Parse r')"
proof (induction r arbitrary: r')
  case Nil
  then show ?case by simp
next
  case (Cons lp r)
  obtain l p where lp: "lp = (l, p)" by (cases lp)
  from Cons.prems obtain lp' r'' where r': "r' = lp' # r''" by (cases r') auto
  obtain l' p' where lp': "lp' = (l', p')" by (cases lp')
  from Cons.prems have h: "fst (Parse p) = fst (Parse p')"
    and t: "map (\<lambda>lp. fst (Parse (snd lp))) r = map (\<lambda>lp. fst (Parse (snd lp))) r''"
    unfolding lp r' lp' by simp_all
  from t have "fst (map_Parse r) = fst (map_Parse r'')" by (rule Cons.IH)
  with h show ?case unfolding lp r' lp'
    by (cases "fst (Parse p')") simp_all
qed

lemma ParseFiles_on_routed:
  "ParseFiles_on b reg files =
     (case fst (map_Parse (routed b reg files)) of
        Inl e \<Rightarrow> (Inl e, snd (map_Parse (routed b reg files)))
      | Inr parserPromises \<Rightarrow>
          (case promise_all parserPromises of
             Inl e \<Rightarrow> (Inl e, snd (map_Parse (routed b reg files)))
           | Inr parserResults \<Rightarrow>
               (Inr (recognised_names b files, concat parserResults),
                snd (map_Parse (routed b reg files)))))"
proof -
  obtain fns reg1 where r: "foldl (route_file b) ([], reg) files = (fns, reg1)"
    by (cases "foldl (route_file b) ([], reg) files")
  then have f: "fns = recognised_names b files"
    using foldl_route_fst [of b "[]" reg files] by simp
  from r have g: "routed b reg files = reg1" by (simp add: routed_def)
  obtain m reg2 where m: "map_Parse reg1 = (m, reg2)" by (cases "map_Parse reg1")
  show ?thesis
    by (simp add: ParseFiles_on_def r g m f split: sum.splits)
qed

section \<open>Evaluation of the examples\<close>

lemmas walk_eval = getAllFiles_def path_join_def path_normalize_def is_line_terminator_def

lemmas classify_eval = getFileNameAndLanguage_def js_pop_def toLowerCase_def lower_char_def

lemmas run_eval = ParseFiles_on_def route_file_def parsers_def Parse_def AddFile_def emit_def
  new_Javascript_def new_Python_def new_XMLParser_def sample_grammar_def failing_grammar_def
  throwing_grammar_def MIN_METHOD_LINES_def MIN_FUNCTION_CHARS_def

section \<open>The run\<close>

lemma lang_determined_by_name:
  "fst (getFileNameAndLanguage f b) = fst (getFileNameAndLanguage f' b) \<Longrightarrow>
   snd (getFileNameAndLanguage f b) = snd (getFileNameAndLanguage f' b)"
proof -
  assume "fst (getFileNameAndLanguage f b) = fst (getFileNameAndLanguage f' b)"
  then have e: "js_replace f b ''.'' = js_replace f' b ''.''"
    by (simp only: fst_getFileNameAndLanguage)
  show ?thesis
    unfolding getFileNameAndLanguage_def e by (rule refl)
qed

lemma recognised_names_mem:
  "fn \<in> set (recognised_names b files) \<Longrightarrow>
   \<exists>f' \<in> set files. fst (getFileNameAndLanguage f' b) = fn \<and> snd (getFileNameAndLanguage f' b) \<noteq> None"
  by (auto simp add: recognised_names_def)

lemma unsupported_name_not_recognised:
  assumes "snd (getFileNameAndLanguage f b) = None"
  shows "fst (getFileNameAndLanguage f b) \<notin> set (recognised_names b files)"
proof
  assume "fst (getFileNameAndLanguage f b) \<in> set (recognised_names b files)"
  then obtain f' where f': "fst (getFileNameAndLanguage f' b) = fst (getFileNameAndLanguage f b)"
      "snd (getFileNameAndLanguage f' b) \<noteq> None"
    using recognised_names_mem by blast
  from f'(1) have "snd (getFileNameAndLanguage f' b) = snd (getFileNameAndLanguage f b)"
    by (rule lang_determined_by_name)
  with assms f'(2) show False by simp
qed

lemma ParseFiles_on_drop_unsupported:
  assumes "snd (getFileNameAndLanguage f b) = None"
  shows "ParseFiles_on b reg (xs @ f # ys) = ParseFiles_on b reg (xs @ ys)"
  using assms by (simp add: ParseFiles_on_def route_file_unsupported)

lemma fst_ParseFiles_on_names:
  "fst (ParseFiles_on b reg files) = Inr (fns, hs) \<Longrightarrow> fns = recognised_names b files"
  by (auto simp add: ParseFiles_on_routed split: sum.splits)

text \<open>
  C1, as the code has it. A file the walk yields whose language is undefined is dropped
  before anything is recorded: its relative name is not entered in \<open>filenames\<close>, no
  backend is handed it, and the run is the run over the walk without that file. Nothing
  fails on its account.
\<close>

theorem unsupported_file_is_dropped:
  assumes "getAllFiles b root = Inr (xs @ f # ys)"
    and "snd (getFileNameAndLanguage f b) = None"
  shows "ParseFiles root b reg = ParseFiles_on b reg (xs @ ys)
     \<and> (\<forall>fns hs. fst (ParseFiles root b reg) = Inr (fns, hs) \<longrightarrow>
           fns = recognised_names b (xs @ ys) \<and> fst (getFileNameAndLanguage f b) \<notin> set fns)"
proof -
  have eq: "ParseFiles root b reg = ParseFiles_on b reg (xs @ ys)"
    using assms by (simp add: ParseFiles_def ParseFiles_on_drop_unsupported)
  have "fns = recognised_names b (xs @ ys) \<and> fst (getFileNameAndLanguage f b) \<notin> set fns"
    if "fst (ParseFiles root b reg) = Inr (fns, hs)" for fns hs
  proof -
    from that eq have "fns = recognised_names b (xs @ ys)"
      using fst_ParseFiles_on_names by metis
    then show ?thesis using unsupported_name_not_recognised [OF assms(2)] by simp
  qed
  with eq show ?thesis by blast
qed

theorem unsupported_file_is_dropped_witness:
  "fst (ParseFiles (Dir [(''a.js'', File), (''README.md'', File), (''b.py'', File)]) ''/r''
         (parsers sample_grammar))
     = Inr ([''./a.js'', ''./b.py''], [''Javascript:./a.js'', ''Python:./b.py''])"
proof -
  have w: "getAllFiles ''/r'' (Dir [(''a.js'', File), (''README.md'', File), (''b.py'', File)])
      = Inr ([''/r/a.js''] @ ''/r/README.md'' # [''/r/b.py''])"
    by (simp add: walk_eval)
  have u: "snd (getFileNameAndLanguage ''/r/README.md'' ''/r'') = None"
    by (simp add: classify_eval)
  have "ParseFiles (Dir [(''a.js'', File), (''README.md'', File), (''b.py'', File)]) ''/r''
          (parsers sample_grammar)
      = ParseFiles_on ''/r'' (parsers sample_grammar) ([''/r/a.js''] @ [''/r/b.py''])"
    using unsupported_file_is_dropped [OF w u] by blast
  then show ?thesis
    by (simp add: run_eval classify_eval)
qed

text \<open>
  C1 as it is worded fails on the specification's own scenario A: the directory holds
  \<^verbatim>\<open>a.js\<close>, \<^verbatim>\<open>b.py\<close> and \<^verbatim>\<open>c.txt\<close>, and \<^verbatim>\<open>./c.txt\<close> is not among the
  file names returned.
\<close>

theorem unsupported_file_counterexample:
  "getAllFiles ''/r'' (Dir [(''a.js'', File), (''b.py'', File), (''c.txt'', File)])
     = Inr [''/r/a.js'', ''/r/b.py'', ''/r/c.txt'']
   \<and> getFileNameAndLanguage ''/r/c.txt'' ''/r'' = (''./c.txt'', None)
   \<and> fst (ParseFiles (Dir [(''a.js'', File), (''b.py'', File), (''c.txt'', File)]) ''/r''
         (parsers sample_grammar))
     = Inr ([''./a.js'', ''./b.py''], [''Javascript:./a.js'', ''Python:./b.py''])"
  by (simp add: ParseFiles_def walk_eval run_eval classify_eval)

lemma routed_unregistered:
  assumes "getFileNameAndLanguage f b = (fn, Some l)" and "map_of reg l = None"
  shows "routed b reg (xs @ f # ys) = routed b reg (xs @ ys)"
proof -
  obtain a r where 1: "foldl (route_file b) ([], reg) xs = (a, r)"
    by (cases "foldl (route_file b) ([], reg) xs")
  then have "map fst r = map fst reg"
    using foldl_route_keys [of b "[]" reg xs] by simp
  then have "fst ` set r = fst ` set reg" by (metis set_map)
  with assms(2) have "map_of r l = None" by (simp add: map_of_eq_None_iff)
  with assms(1) have "route_file b (a, r) f = (a @ [fn], r)"
    by (rule route_file_unregistered)
  then show ?thesis
    using 1 foldl_route_snd_indep [of b "a @ [fn]" r ys a]
    by (simp add: routed_def)
qed

text \<open>
  C5. A file whose language is recognised but has no backend in the registry: its
  relative name is appended to \<open>filenames\<close>, the registry is left as it was, and the
  run ends as the run without that file does (the same failure, or the same records),
  with the name added at the file's place.
\<close>

theorem unregistered_language_is_kept:
  assumes "getAllFiles b root = Inr (xs @ f # ys)"
    and "getFileNameAndLanguage f b = (fn, Some l)"
    and "map_of reg l = None"
  shows "route_file b (fns, reg) f = (fns @ [fn], reg)
     \<and> snd (ParseFiles root b reg) = snd (ParseFiles_on b reg (xs @ ys))
     \<and> fst (ParseFiles root b reg) =
         (case fst (ParseFiles_on b reg (xs @ ys)) of
            Inl e \<Rightarrow> Inl e
          | Inr (fns', hs) \<Rightarrow> Inr (recognised_names b xs @ fn # recognised_names b ys, hs))"
proof -
  have r: "routed b reg (xs @ f # ys) = routed b reg (xs @ ys)"
    using assms(2,3) by (rule routed_unregistered)
  have n: "recognised_names b (xs @ f # ys) = recognised_names b xs @ fn # recognised_names b ys"
    using assms(2) by (simp add: recognised_names_def)
  have p: "ParseFiles root b reg = ParseFiles_on b reg (xs @ f # ys)"
    using assms(1) by (simp add: ParseFiles_def)
  show ?thesis
    using assms(2,3)
    by (simp add: p route_file_unregistered ParseFiles_on_routed r n split: sum.splits)
qed

theorem unregistered_language_is_kept_witness:
  "fst (ParseFiles (Dir [(''a.js'', File), (''b.py'', File)]) ''/r''
         [(JS, new_Javascript MIN_METHOD_LINES MIN_FUNCTION_CHARS (sample_grammar JS))])
     = Inr ([''./a.js'', ''./b.py''], [''Javascript:./a.js''])"
proof -
  have w: "getAllFiles ''/r'' (Dir [(''a.js'', File), (''b.py'', File)])
      = Inr ([''/r/a.js''] @ ''/r/b.py'' # [])"
    by (simp add: walk_eval)
  have c: "getFileNameAndLanguage ''/r/b.py'' ''/r'' = (''./b.py'', Some PYTHON)"
    by (simp add: classify_eval)
  have m: "map_of [(JS, new_Javascript MIN_METHOD_LINES MIN_FUNCTION_CHARS (sample_grammar JS))]
      PYTHON = None"
    by simp
  have "fst (ParseFiles (Dir [(''a.js'', File), (''b.py'', File)]) ''/r''
         [(JS, new_Javascript MIN_METHOD_LINES MIN_FUNCTION_CHARS (sample_grammar JS))])
      = (case fst (ParseFiles_on ''/r''
            [(JS, new_Javascript MIN_METHOD_LINES MIN_FUNCTION_CHARS (sample_grammar JS))]
            ([''/r/a.js''] @ [])) of
            Inl e \<Rightarrow> Inl e
          | Inr (fns', hs) \<Rightarrow>
              Inr (recognised_names ''/r'' [''/r/a.js''] @ ''./b.py'' # recognised_names ''/r'' [], hs))"
    using unregistered_language_is_kept [OF w c m] by blast
  then show ?thesis
    by (simp add: run_eval classify_eval recognised_names_def)
qed

lemma snd_ParseFiles_on:
  "snd (ParseFiles_on b reg files) = snd (map_Parse (routed b reg files))"
  by (simp add: ParseFiles_on_routed split: sum.splits)

text \<open>
  C3. When the call of \<open>Parse\<close> on some backend of the registry, as the routing left
  it, returns a promise that is rejected (or throws), the promise of \<open>ParseFiles\<close> is
  rejected: there is no pair of file names and records.
\<close>

theorem backend_failure_fails_the_run:
  assumes "getAllFiles b root = Inr files"
    and "(l, p) \<in> set (routed b reg files)"
    and "fst (Parse p) = Rejects e \<or> fst (Parse p) = Throws e"
  shows "\<exists>e'. fst (ParseFiles root b reg) = Inl e'"
proof (cases "fst (map_Parse (routed b reg files))")
  case (Inl e')
  then show ?thesis
    using assms(1) by (simp add: ParseFiles_def ParseFiles_on_routed)
next
  case (Inr promises)
  have "\<not> fst (Parse p) = Throws e"
  proof
    assume "fst (Parse p) = Throws e"
    with assms(2) have "\<exists>e'. fst (map_Parse (routed b reg files)) = Inl e'"
      by (rule map_Parse_thrown)
    with Inr show False by simp
  qed
  with assms(3) have "fst (Parse p) = Rejects e" by blast
  with assms(2) have "Inl e \<in> set promises"
    using Inr by (rule map_Parse_rejected)
  then have "\<exists>e'. promise_all promises = Inl e'"
    using promise_all_Inl_iff by blast
  then show ?thesis
    using assms(1) Inr by (auto simp add: ParseFiles_def ParseFiles_on_routed)
qed

theorem backend_failure_fails_the_run_witness:
  "\<exists>e'. fst (ParseFiles (Dir [(''a.js'', File)]) ''/r'' (parsers failing_grammar)) = Inl e'"
proof -
  have w: "getAllFiles ''/r'' (Dir [(''a.js'', File)]) = Inr [''/r/a.js'']"
    by (simp add: walk_eval)
  have m: "(PYTHON, new_Python MIN_METHOD_LINES MIN_FUNCTION_CHARS (failing_grammar PYTHON))
      \<in> set (routed ''/r'' (parsers failing_grammar) [''/r/a.js''])"
    by (simp add: routed_def route_file_def parsers_def classify_eval)
  have f: "fst (Parse (new_Python MIN_METHOD_LINES MIN_FUNCTION_CHARS (failing_grammar PYTHON)))
        = Rejects BackendFailure
      \<or> fst (Parse (new_Python MIN_METHOD_LINES MIN_FUNCTION_CHARS (failing_grammar PYTHON)))
        = Throws BackendFailure"
    by (simp add: Parse_def new_Python_def failing_grammar_def)
  show ?thesis
    using w m f by (rule backend_failure_fails_the_run)
qed

lemma routed_parseCalls:
  "map (\<lambda>(l, p). parseCalls p) (routed b reg files) = map (\<lambda>(l, p). parseCalls p) reg"
proof -
  have "map (\<lambda>(l, p). parseCalls p) r = map (\<lambda>(l, p). parseCalls p) (map (\<lambda>(l, p). (l, p\<lparr>queue := []\<rparr>)) r)"
    for r :: "'a registry"
    by (induction r) auto
  then show ?thesis
    using foldl_route_clears [of b "[]" reg files] by (metis routed_def)
qed

text \<open>
  C4, as the code has it. When the walk has returned, the backends of the registry are
  called in its order, in the state the routing of all files left them: up to and
  including the first whose call throws, each once, and none after it. So when no call
  throws, every backend, empty queue or not, is called exactly once: the registry
  afterwards is the routed one with \<open>Parse\<close> applied to every entry, with the same
  keys. When every call returns a promise that is fulfilled the result is the
  accumulated file names with the concatenation of the returned lists in the order of
  the registry.
\<close>

theorem parse_fan_out:
  assumes "getAllFiles b root = Inr files"
  shows "map fst (snd (ParseFiles root b reg)) = map fst reg
     \<and> map (\<lambda>(l, p). parseCalls p) (snd (ParseFiles root b reg))
         = map Suc (take (called (routed b reg files)) (map (\<lambda>(l, p). parseCalls p) reg))
           @ drop (called (routed b reg files)) (map (\<lambda>(l, p). parseCalls p) reg)
     \<and> ((\<forall>lp \<in> set (routed b reg files). \<forall>e. fst (Parse (snd lp)) \<noteq> Throws e) \<longrightarrow>
          snd (ParseFiles root b reg) = map (\<lambda>(l, p). (l, snd (Parse p))) (routed b reg files)
          \<and> map (\<lambda>(l, p). parseCalls p) (snd (ParseFiles root b reg))
              = map (\<lambda>(l, p). Suc (parseCalls p)) reg)
     \<and> ((\<forall>lp \<in> set (routed b reg files). fst (Parse (snd lp)) = Fulfils (R lp)) \<longrightarrow>
          fst (ParseFiles root b reg)
            = Inr (recognised_names b files, concat (map R (routed b reg files))))"
proof (intro conjI impI)
  have s: "snd (ParseFiles root b reg) = snd (map_Parse (routed b reg files))"
    using assms by (simp add: ParseFiles_def snd_ParseFiles_on)
  show "map fst (snd (ParseFiles root b reg)) = map fst reg"
    unfolding s map_Parse_keys using foldl_route_keys [of b "[]" reg files]
    by (simp add: routed_def)
  show c: "map (\<lambda>(l, p). parseCalls p) (snd (ParseFiles root b reg))
         = map Suc (take (called (routed b reg files)) (map (\<lambda>(l, p). parseCalls p) reg))
           @ drop (called (routed b reg files)) (map (\<lambda>(l, p). parseCalls p) reg)"
    unfolding s map_Parse_calls routed_parseCalls by (rule refl)
  {
    assume a: "\<forall>lp \<in> set (routed b reg files). \<forall>e. fst (Parse (snd lp)) \<noteq> Throws e"
    then have n: "snd (map_Parse (routed b reg files))
          = map (\<lambda>(l, p). (l, snd (Parse p))) (routed b reg files)
        \<and> called (routed b reg files) = length (routed b reg files)"
      by (rule map_Parse_no_throw)
    then show "snd (ParseFiles root b reg)
        = map (\<lambda>(l, p). (l, snd (Parse p))) (routed b reg files)"
      unfolding s by simp
    have "length (routed b reg files) = length reg"
      using foldl_route_keys [of b "[]" reg files] by (metis length_map routed_def)
    with n have k: "called (routed b reg files) = length (map (\<lambda>(l, p). parseCalls p) reg)"
      by simp
    have "map Suc (map (\<lambda>(l, p). parseCalls p) reg) = map (\<lambda>(l, p). Suc (parseCalls p)) reg"
      by (induction reg) auto
    then show "map (\<lambda>(l, p). parseCalls p) (snd (ParseFiles root b reg))
        = map (\<lambda>(l, p). Suc (parseCalls p)) reg"
      unfolding c k by simp
  }
  {
    assume a: "\<forall>lp \<in> set (routed b reg files). fst (Parse (snd lp)) = Fulfils (R lp)"
    then have m: "fst (map_Parse (routed b reg files))
        = Inr (map (\<lambda>lp. Inr (R lp)) (routed b reg files))"
      by (rule map_Parse_fulfilled)
    have "promise_all (map (\<lambda>lp. Inr (R lp)) (routed b reg files))
        = Inr (map R (routed b reg files))"
      by (rule promise_all_Inr) simp
    then show "fst (ParseFiles root b reg)
        = Inr (recognised_names b files, concat (map R (routed b reg files)))"
      using assms m by (simp add: ParseFiles_def ParseFiles_on_routed)
  }
qed

theorem parse_fan_out_witness:
  "map (\<lambda>(l, p). parseCalls p)
      (snd (ParseFiles (Dir [(''a.js'', File)]) ''/r'' (parsers sample_grammar)))
     = [1, 1, 1, 1, 1]
   \<and> fst (ParseFiles (Dir [(''a.js'', File)]) ''/r'' (parsers sample_grammar))
     = Inr ([''./a.js''], [''Javascript:./a.js''])"
proof -
  let ?R = "\<lambda>lp :: Language \<times> string IParser.
      case fst (Parse (snd lp)) of Throws e \<Rightarrow> [] | Rejects e \<Rightarrow> [] | Fulfils hs \<Rightarrow> hs"
  have w: "getAllFiles ''/r'' (Dir [(''a.js'', File)]) = Inr [''/r/a.js'']"
    by (simp add: walk_eval)
  note t = parse_fan_out [OF w, of "parsers sample_grammar" ?R]
  have n: "\<forall>lp \<in> set (routed ''/r'' (parsers sample_grammar) [''/r/a.js'']).
      \<forall>e. fst (Parse (snd lp)) \<noteq> Throws e"
    by (simp add: routed_def route_file_def classify_eval parsers_def Parse_def AddFile_def
        new_Javascript_def new_Python_def new_XMLParser_def sample_grammar_def)
  have c: "map (\<lambda>(l, p). parseCalls p)
      (snd (ParseFiles (Dir [(''a.js'', File)]) ''/r'' (parsers sample_grammar)))
      = map (\<lambda>(l, p). Suc (parseCalls p)) (parsers sample_grammar)"
    using t n by blast
  have h: "\<forall>lp \<in> set (routed ''/r'' (parsers sample_grammar) [''/r/a.js'']).
      fst (Parse (snd lp)) = Fulfils (?R lp)"
    by (simp add: routed_def route_file_def classify_eval parsers_def Parse_def AddFile_def
        new_Javascript_def new_Python_def new_XMLParser_def sample_grammar_def)
  have "fst (ParseFiles (Dir [(''a.js'', File)]) ''/r'' (parsers sample_grammar))
      = Inr (recognised_names ''/r'' [''/r/a.js''],
             concat (map ?R (routed ''/r'' (parsers sample_grammar) [''/r/a.js''])))"
    using t h by blast
  then have "fst (ParseFiles (Dir [(''a.js'', File)]) ''/r'' (parsers sample_grammar))
     = Inr ([''./a.js''], [''Javascript:./a.js''])"
    by (simp add: recognised_names_def routed_def route_file_def classify_eval parsers_def
        AddFile_def Parse_def emit_def new_Javascript_def new_Python_def new_XMLParser_def
        sample_grammar_def MIN_METHOD_LINES_def MIN_FUNCTION_CHARS_def)
  with c show ?thesis
    by (simp add: parsers_def new_Javascript_def new_Python_def new_XMLParser_def)
qed

text \<open>
  C4 as it is worded fails when a call throws instead of returning a promise: with a
  Javascript backend whose \<open>Parse\<close> throws, the first backend of the registry is
  called once and the four after it are never called.
\<close>

theorem parse_fan_out_throw_counterexample:
  "map (\<lambda>(l, p). parseCalls p)
      (snd (ParseFiles (Dir [(''a.js'', File)]) ''/r'' (parsers throwing_grammar)))
     = [1, 0, 0, 0, 0]"
  by (simp add: ParseFiles_def walk_eval run_eval classify_eval)

lemma set_recognised_names:
  "set (recognised_names b files)
     = {fn. \<exists>p l. p \<in> set files \<and> getFileNameAndLanguage p b = (fn, Some l)}"
proof -
  have "(\<exists>p l. p \<in> set files \<and> getFileNameAndLanguage p b = (fn, Some l))
      \<longleftrightarrow> fn \<in> set (recognised_names b files)" for fn
  proof
    assume "\<exists>p l. p \<in> set files \<and> getFileNameAndLanguage p b = (fn, Some l)"
    then obtain p l where "p \<in> set files" "getFileNameAndLanguage p b = (fn, Some l)" by blast
    then show "fn \<in> set (recognised_names b files)"
      by (force simp add: recognised_names_def)
  next
    assume "fn \<in> set (recognised_names b files)"
    then obtain p where p: "p \<in> set files" "fst (getFileNameAndLanguage p b) = fn"
        "snd (getFileNameAndLanguage p b) \<noteq> None"
      using recognised_names_mem by blast
    then obtain l where "snd (getFileNameAndLanguage p b) = Some l" by blast
    with p(2) have "getFileNameAndLanguage p b = (fn, Some l)" by (simp add: prod_eq_iff)
    with p(1) show "\<exists>p l. p \<in> set files \<and> getFileNameAndLanguage p b = (fn, Some l)" by blast
  qed
  then show ?thesis by blast
qed

lemma vcs_metadata_matches: "vcs_metadata name \<Longrightarrow> git_regex_test name"
  by (auto simp add: vcs_metadata_def prefix_def is_line_terminator_def)

lemma plain_entriesD:
  "plain_entries es \<Longrightarrow> (name, n) \<in> set es \<Longrightarrow>
   (git_regex_test name \<longrightarrow> vcs_metadata name) \<and> plain n"
  by (induction es) auto

lemma walk_reaches_spec:
  "walk_reaches cur t p \<Longrightarrow> plain t \<Longrightarrow> spec_reachable cur t p"
proof (induction rule: walk_reaches.induct)
  case (here name n es currDir)
  from here(4) have pe: "plain_entries es" by simp
  with here(1) have "plain n" using plain_entriesD by blast
  with here(3) have "n = File" by auto
  with here(1) have "(name, File) \<in> set es" by simp
  moreover have "\<not> vcs_metadata name" using here(2) vcs_metadata_matches by blast
  ultimately show ?case by (rule spec_here)
next
  case (below name sub es currDir p)
  from below(5) have pe: "plain_entries es" by simp
  with below(1) have "plain (Dir sub)" using plain_entriesD by blast
  then have "spec_reachable (path_join currDir name) (Dir sub) p" by (rule below.IH)
  moreover have "\<not> vcs_metadata name" using below(2) vcs_metadata_matches by blast
  ultimately show ?case using below(1) by (blast intro: spec_below)
qed

lemma spec_walk_reaches:
  "spec_reachable cur t p \<Longrightarrow> plain t \<Longrightarrow> walk_reaches cur t p"
proof (induction rule: spec_reachable.induct)
  case (spec_here name es currDir)
  from spec_here(3) have pe: "plain_entries es" by simp
  with spec_here(1) have "git_regex_test name \<longrightarrow> vcs_metadata name"
    using plain_entriesD by blast
  with spec_here(2) have "\<not> git_regex_test name" by blast
  moreover have "File = File \<or> File = Special" by simp
  ultimately show ?case using spec_here(1) by (blast intro: here)
next
  case (spec_below name sub es currDir p)
  from spec_below(5) have pe: "plain_entries es" by simp
  with spec_below(1) have d: "(git_regex_test name \<longrightarrow> vcs_metadata name) \<and> plain (Dir sub)"
    using plain_entriesD by blast
  then have "walk_reaches (path_join currDir name) (Dir sub) p" using spec_below.IH by blast
  moreover from d spec_below(2) have "\<not> git_regex_test name" by blast
  ultimately show ?case using spec_below(1) by (blast intro: below)
qed

text \<open>
  C2, as the code has it by design. On a tree of regular files and directories in which
  the regular expression matches no name but those beginning with \<^verbatim>\<open>.git\<close>, when
  the run returns, its file names are exactly the names the classifier gives to the
  regular files reachable recursively from the root that are not version-control
  metadata and whose language is recognised. (Nothing is said of other trees.)
\<close>

theorem filenames_are_the_recognised_regular_files:
  assumes "plain root"
    and "fst (ParseFiles root b reg) = Inr (fns, hs)"
  shows "set fns = {fn. \<exists>p l. spec_reachable (js_replace b [CHR 0x5C] ''/'') root p
                          \<and> getFileNameAndLanguage p b = (fn, Some l)}"
proof -
  obtain files where w: "getAllFiles b root = Inr files"
    using assms(2) by (cases "getAllFiles b root") (simp_all add: ParseFiles_def)
  then obtain es where r: "root = Dir es"
    by (cases root) (simp_all add: getAllFiles_def)
  from w r have "files = forEach_entry (js_replace b [CHR 0x5C] ''/'') es []"
    by (simp add: getAllFiles_Dir)
  then have "set files = {p. walk_reaches (js_replace b [CHR 0x5C] ''/'') root p}"
    using walk_set_aux(2) [of "js_replace b [CHR 0x5C] ''/''" es] r by simp
  also have "\<dots> = {p. spec_reachable (js_replace b [CHR 0x5C] ''/'') root p}"
    using assms(1) walk_reaches_spec spec_walk_reaches by blast
  finally have s: "set files = {p. spec_reachable (js_replace b [CHR 0x5C] ''/'') root p}" .
  from assms(2) w have "fns = recognised_names b files"
    using fst_ParseFiles_on_names [of b reg files fns hs] by (simp add: ParseFiles_def)
  then show ?thesis
    by (simp add: set_recognised_names s)
qed

theorem filenames_are_the_recognised_regular_files_witness:
  "set [''./a.js'', ''./sub/b.py'']
     = {fn. \<exists>p l. spec_reachable ''/r''
               (Dir [(''a.js'', File), (''.git'', Dir [(''x.js'', File)]),
                     (''sub'', Dir [(''b.py'', File), (''c.txt'', File)])]) p
             \<and> getFileNameAndLanguage p ''/r'' = (fn, Some l)}"
proof -
  have pl: "plain (Dir [(''a.js'', File), (''.git'', Dir [(''x.js'', File)]),
                     (''sub'', Dir [(''b.py'', File), (''c.txt'', File)])])"
    by (simp add: vcs_metadata_def is_line_terminator_def)
  have "fst (ParseFiles (Dir [(''a.js'', File), (''.git'', Dir [(''x.js'', File)]),
                     (''sub'', Dir [(''b.py'', File), (''c.txt'', File)])]) ''/r''
          (parsers sample_grammar))
      = Inr ([''./a.js'', ''./sub/b.py''], [''Javascript:./a.js'', ''Python:./sub/b.py''])"
    by (simp add: ParseFiles_def walk_eval run_eval classify_eval)
  with pl have "set [''./a.js'', ''./sub/b.py'']
     = {fn. \<exists>p l. spec_reachable (js_replace ''/r'' [CHR 0x5C] ''/'')
               (Dir [(''a.js'', File), (''.git'', Dir [(''x.js'', File)]),
                     (''sub'', Dir [(''b.py'', File), (''c.txt'', File)])]) p
             \<and> getFileNameAndLanguage p ''/r'' = (fn, Some l)}"
    by (rule filenames_are_the_recognised_regular_files)
  then show ?thesis by simp
qed

text \<open>
  C2 as it is worded fails for a regular file that is not version-control metadata and
  has no recognised extension: it is reachable, and it is not among the file names.
\<close>

theorem completeness_counterexample:
  "spec_reachable ''/r'' (Dir [(''README.md'', File)]) ''/r/README.md''
   \<and> getFileNameAndLanguage ''/r/README.md'' ''/r'' = (''./README.md'', None)
   \<and> fst (ParseFiles (Dir [(''README.md'', File)]) ''/r'' (parsers sample_grammar)) = Inr ([], [])"
proof -
  have "(''README.md'', File) \<in> set [(''README.md'', File)]" by simp
  moreover have "\<not> vcs_metadata ''README.md''" by (simp add: vcs_metadata_def)
  ultimately have "spec_reachable ''/r'' (Dir [(''README.md'', File)]) (path_join ''/r'' ''README.md'')"
    by (rule spec_here)
  then have "spec_reachable ''/r'' (Dir [(''README.md'', File)]) ''/r/README.md''"
    by (simp add: path_join_def path_normalize_def)
  then show ?thesis
    by (simp add: ParseFiles_def walk_eval run_eval classify_eval)
qed

lemma emit_filter:
  "concat (map (emit p) fs)
     = map fn_hash
         (filter (\<lambda>f. minMethodLines p \<le> fn_lines f \<and> minFunctionChars p \<le> fn_chars f) fs)"
  by (induction fs) (auto simp add: emit_def)

lemma Parse_filter:
  "analyse p (queue p) = Fulfils fs \<Longrightarrow>
   fst (Parse p) = Fulfils (map fn_hash
     (filter (\<lambda>f. minMethodLines p \<le> fn_lines f \<and> minFunctionChars p \<le> fn_chars f) fs))"
  by (simp add: Parse_def emit_filter)

lemma routed_minima:
  assumes "lq \<in> set (routed b reg files)"
  shows "\<exists>lq0 \<in> set reg. minMethodLines (snd lq0) = minMethodLines (snd lq)
           \<and> minFunctionChars (snd lq0) = minFunctionChars (snd lq)"
proof -
  let ?C = "\<lambda>(l, p). (l, p\<lparr>queue := []\<rparr>)"
  have e: "map ?C (routed b reg files) = map ?C reg"
    using foldl_route_clears [of b "[]" reg files] by (simp add: routed_def)
  from assms have "?C lq \<in> set (map ?C (routed b reg files))" by (simp only: set_map) (rule imageI)
  with e have "?C lq \<in> set (map ?C reg)" by (simp only:)
  then obtain lq0 where m: "lq0 \<in> set reg" and c: "?C lq = ?C lq0" by auto
  from c have "(snd lq)\<lparr>queue := []\<rparr> = (snd lq0)\<lparr>queue := []\<rparr>"
    by (simp add: case_prod_unfold)
  then have "minMethodLines ((snd lq)\<lparr>queue := []\<rparr>) = minMethodLines ((snd lq0)\<lparr>queue := []\<rparr>)"
      "minFunctionChars ((snd lq)\<lparr>queue := []\<rparr>) = minFunctionChars ((snd lq0)\<lparr>queue := []\<rparr>)"
    by simp_all
  with m show ?thesis by auto
qed

text \<open>
  C8. Of the functions a backend finds, \<open>Parse\<close> returns the record of each one that is
  at or above both minima, once, and none for a function below the minimum in lines or
  in characters; so the records of a run in which every backend finds its functions are
  those of the functions at or above the minima of their backend. The registry holds
  five backends, and each of them is constructed with, and keeps through the routing,
  the same two minima MIN\_METHOD\_LINES and MIN\_FUNCTION\_CHARS.
\<close>

theorem minimum_size_filter:
  "(analyse p (queue p) = Fulfils fs \<longrightarrow>
      fst (Parse p) = Fulfils (map fn_hash
        (filter (\<lambda>f. minMethodLines p \<le> fn_lines f \<and> minFunctionChars p \<le> fn_chars f) fs)))
   \<and> (getAllFiles b root = Inr files
        \<and> (\<forall>lp \<in> set (routed b reg files). analyse (snd lp) (queue (snd lp)) = Fulfils (F lp))
      \<longrightarrow> fst (ParseFiles root b reg)
            = Inr (recognised_names b files,
                   concat (map (\<lambda>lp. map fn_hash
                     (filter (\<lambda>f. minMethodLines (snd lp) \<le> fn_lines f
                                    \<and> minFunctionChars (snd lp) \<le> fn_chars f) (F lp)))
                     (routed b reg files))))
   \<and> map fst (parsers ex) = [JS, PYTHON, CPP, CSHARP, JAVA]
   \<and> (\<forall>lq \<in> set (routed b (parsers ex) files).
        minMethodLines (snd lq) = MIN_METHOD_LINES
        \<and> minFunctionChars (snd lq) = MIN_FUNCTION_CHARS)"
proof (intro conjI impI ballI)
  assume "analyse p (queue p) = Fulfils fs"
  then show "fst (Parse p) = Fulfils (map fn_hash
        (filter (\<lambda>f. minMethodLines p \<le> fn_lines f \<and> minFunctionChars p \<le> fn_chars f) fs))"
    by (rule Parse_filter)
next
  assume a: "getAllFiles b root = Inr files
        \<and> (\<forall>lp \<in> set (routed b reg files). analyse (snd lp) (queue (snd lp)) = Fulfils (F lp))"
  let ?R = "\<lambda>lp. map fn_hash
                     (filter (\<lambda>f. minMethodLines (snd lp) \<le> fn_lines f
                                    \<and> minFunctionChars (snd lp) \<le> fn_chars f) (F lp))"
  from a have "\<forall>lp \<in> set (routed b reg files). fst (Parse (snd lp)) = Fulfils (?R lp)"
    using Parse_filter by blast
  then have m: "fst (map_Parse (routed b reg files))
        = Inr (map (\<lambda>lp. Inr (?R lp)) (routed b reg files))"
    by (rule map_Parse_fulfilled)
  have "promise_all (map (\<lambda>lp. Inr (?R lp)) (routed b reg files))
        = Inr (map ?R (routed b reg files))"
    by (rule promise_all_Inr) simp
  then show "fst (ParseFiles root b reg)
        = Inr (recognised_names b files, concat (map ?R (routed b reg files)))"
    using a m by (simp add: ParseFiles_def ParseFiles_on_routed)
next
  show "map fst (parsers ex) = [JS, PYTHON, CPP, CSHARP, JAVA]"
    by (simp add: parsers_def)
next
  fix lq
  assume "lq \<in> set (routed b (parsers ex) files)"
  then obtain lq0 where "lq0 \<in> set (parsers ex)"
      "minMethodLines (snd lq0) = minMethodLines (snd lq)"
      "minFunctionChars (snd lq0) = minFunctionChars (snd lq)"
    using routed_minima by blast
  then show "minMethodLines (snd lq) = MIN_METHOD_LINES"
      "minFunctionChars (snd lq) = MIN_FUNCTION_CHARS"
    by (auto simp add: parsers_def new_Javascript_def new_Python_def new_XMLParser_def)
qed

theorem minimum_size_filter_witness:
  "fst (Parse (new_Javascript 3 10 (sized_grammar JS))) = Fulfils [''edge'', ''large'']
   \<and> fst (ParseFiles (Dir [(''a.js'', File)]) ''/r''
           [(JS, new_Javascript 3 10 (sized_grammar JS))])
       = Inr ([''./a.js''], [''edge'', ''large''])
   \<and> minMethodLines (new_XMLParser JAVA MIN_FUNCTION_CHARS MIN_METHOD_LINES sized_grammar)
       = MIN_METHOD_LINES"
proof -
  let ?p = "new_Javascript 3 10 (sized_grammar JS)"
  let ?fs = "[\<lparr>fn_lines = 2, fn_chars = 50, fn_hash = ''short''\<rparr>,
              \<lparr>fn_lines = 3, fn_chars = 9, fn_hash = ''thin''\<rparr>,
              \<lparr>fn_lines = 3, fn_chars = 10, fn_hash = ''edge''\<rparr>,
              \<lparr>fn_lines = 7, fn_chars = 90, fn_hash = ''large''\<rparr>]"
  note t = minimum_size_filter [where p = ?p and fs = ?fs and b = "''/r''"
      and root = "Dir [(''a.js'', File)]" and files = "[''/r/a.js'']"
      and reg = "[(JS, ?p)]" and F = "\<lambda>lp. ?fs" and ex = sized_grammar]
  have a: "analyse ?p (queue ?p) = Fulfils ?fs"
    by (simp add: new_Javascript_def sized_grammar_def)
  have "fst (Parse ?p) = Fulfils (map fn_hash
        (filter (\<lambda>f. minMethodLines ?p \<le> fn_lines f \<and> minFunctionChars ?p \<le> fn_chars f) ?fs))"
    using t a by blast
  then have 1: "fst (Parse ?p) = Fulfils [''edge'', ''large'']"
    by (simp add: new_Javascript_def)
  have w: "getAllFiles ''/r'' (Dir [(''a.js'', File)]) = Inr [''/r/a.js'']"
    by (simp add: walk_eval)
  have r: "routed ''/r'' [(JS, ?p)] [''/r/a.js''] = [(JS, AddFile ?p ''./a.js'' ''/r'')]"
    by (simp add: routed_def route_file_def classify_eval)
  have h: "\<forall>lp \<in> set (routed ''/r'' [(JS, ?p)] [''/r/a.js'']).
      analyse (snd lp) (queue (snd lp)) = Fulfils ?fs"
    unfolding r by (simp add: AddFile_def new_Javascript_def sized_grammar_def)
  have "fst (ParseFiles (Dir [(''a.js'', File)]) ''/r'' [(JS, ?p)])
            = Inr (recognised_names ''/r'' [''/r/a.js''],
                   concat (map (\<lambda>lp. map fn_hash
                     (filter (\<lambda>f. minMethodLines (snd lp) \<le> fn_lines f
                                    \<and> minFunctionChars (snd lp) \<le> fn_chars f) ?fs))
                     (routed ''/r'' [(JS, ?p)] [''/r/a.js''])))"
    using t w h by blast
  then have 2: "fst (ParseFiles (Dir [(''a.js'', File)]) ''/r'' [(JS, ?p)])
       = Inr ([''./a.js''], [''edge'', ''large''])"
    unfolding r by (simp add: recognised_names_def classify_eval AddFile_def new_Javascript_def)
  have m: "(JAVA, new_XMLParser JAVA MIN_FUNCTION_CHARS MIN_METHOD_LINES sized_grammar)
      \<in> set (routed ''/r'' (parsers sized_grammar) [])"
    by (simp add: routed_def parsers_def)
  have 3: "minMethodLines (new_XMLParser JAVA MIN_FUNCTION_CHARS MIN_METHOD_LINES sized_grammar)
       = MIN_METHOD_LINES"
    using minimum_size_filter [where b = "''/r''" and ex = sized_grammar and files = "[]"] m
    by force
  from 1 2 3 show ?thesis by simp
qed

lemma route_file_forget:
  "route_file b (fns, map (\<lambda>(l, p). (l, p\<lparr>parseCalls := 0\<rparr>)) reg) f
     = (case route_file b (fns, reg) f of
          (a, r) \<Rightarrow> (a, map (\<lambda>(l, p). (l, p\<lparr>parseCalls := 0\<rparr>)) r))"
proof (cases "getFileNameAndLanguage f b")
  case (Pair fn lang)
  show ?thesis
  proof (cases lang)
    case None
    with Pair show ?thesis by (simp add: route_file_def)
  next
    case (Some l)
    show ?thesis
    proof (cases "map_of reg l")
      case None
      with Pair Some show ?thesis by (simp add: route_file_def map_of_map)
    next
      case (Some p)
      have "(AddFile p fn b)\<lparr>parseCalls := 0\<rparr> = AddFile (p\<lparr>parseCalls := 0\<rparr>) fn b"
        by (cases p) (simp add: AddFile_def)
      with Some Pair \<open>lang = Some l\<close> show ?thesis
        by (simp add: route_file_def map_of_map map_value_update)
    qed
  qed
qed

lemma foldl_route_forget:
  "foldl (route_file b) (fns, map (\<lambda>(l, p). (l, p\<lparr>parseCalls := 0\<rparr>)) reg) files
     = (case foldl (route_file b) (fns, reg) files of
          (a, r) \<Rightarrow> (a, map (\<lambda>(l, p). (l, p\<lparr>parseCalls := 0\<rparr>)) r))"
proof (induction files arbitrary: fns reg)
  case Nil
  show ?case by simp
next
  case (Cons f files)
  obtain a r where 1: "route_file b (fns, reg) f = (a, r)"
    by (cases "route_file b (fns, reg) f")
  show ?case
    using Cons.IH [of a r] 1 by (simp add: route_file_forget)
qed

lemma routed_forget:
  "routed b (map (\<lambda>(l, p). (l, p\<lparr>parseCalls := 0\<rparr>)) reg) files
     = map (\<lambda>(l, p). (l, p\<lparr>parseCalls := 0\<rparr>)) (routed b reg files)"
  by (simp add: routed_def foldl_route_forget split: prod.splits)

lemma emit_forget: "emit (p\<lparr>parseCalls := n\<rparr>) = emit p"
  by (rule ext) (simp add: emit_def)

lemma fst_Parse_forget: "fst (Parse (p\<lparr>parseCalls := n\<rparr>)) = fst (Parse p)"
  by (simp add: Parse_def emit_forget split: outcome.splits)

lemma fst_ParseFiles_on_routed:
  "fst (ParseFiles_on b reg files) =
     (case fst (map_Parse (routed b reg files)) of
        Inl e \<Rightarrow> Inl e
      | Inr parserPromises \<Rightarrow>
          (case promise_all parserPromises of
             Inl e \<Rightarrow> Inl e
           | Inr parserResults \<Rightarrow> Inr (recognised_names b files, concat parserResults)))"
  by (simp add: ParseFiles_on_routed split: sum.splits)

lemma fst_ParseFiles_on_forget:
  "fst (ParseFiles_on b (map (\<lambda>(l, p). (l, p\<lparr>parseCalls := 0\<rparr>)) reg) files)
     = fst (ParseFiles_on b reg files)"
proof -
  have "map (\<lambda>lp. fst (Parse (snd lp))) (map (\<lambda>(l, p). (l, p\<lparr>parseCalls := 0\<rparr>)) r)
      = map (\<lambda>lp. fst (Parse (snd lp))) r" for r :: "'a registry"
    by (induction r) (auto simp add: fst_Parse_forget)
  then have "fst (map_Parse (map (\<lambda>(l, p). (l, p\<lparr>parseCalls := 0\<rparr>)) r)) = fst (map_Parse r)"
    for r :: "'a registry"
    by (rule fst_map_Parse_cong)
  then show ?thesis
    unfolding fst_ParseFiles_on_routed routed_forget by (simp only:)
qed

lemma Parse_fulfilled:
  "fst (Parse p) = Fulfils hs \<Longrightarrow> snd (Parse p) = p\<lparr>queue := [], parseCalls := Suc (parseCalls p)\<rparr>"
  by (simp add: Parse_def split: outcome.splits)

text \<open>
  C9. A run that starts with every queue empty and returns leaves every queue empty, and
  a second run over the same tree, with the same base path and the backends as the first
  run left them, returns the same file names and the same records.
\<close>

theorem rerun_gives_the_same_output:
  assumes "\<forall>lp \<in> set reg. queue (snd lp) = []"
    and "ParseFiles root b reg = (Inr out, reg')"
  shows "fst (ParseFiles root b reg') = Inr out \<and> (\<forall>lp \<in> set reg'. queue (snd lp) = [])"
proof -
  let ?G = "map (\<lambda>(l, p). (l, p\<lparr>parseCalls := 0\<rparr>))"
  let ?C = "map (\<lambda>(l, p). (l, p\<lparr>queue := []\<rparr>))"
  obtain files where w: "getAllFiles b root = Inr files"
    using assms(2) by (cases "getAllFiles b root") (simp_all add: ParseFiles_def)
  with assms(2) have on: "ParseFiles_on b reg files = (Inr out, reg')"
    by (simp add: ParseFiles_def)
  then obtain promises rs where
    mp: "fst (map_Parse (routed b reg files)) = Inr promises"
    and ok: "promise_all promises = Inr rs"
    and reg'0: "reg' = snd (map_Parse (routed b reg files))"
    by (auto simp add: ParseFiles_on_routed split: sum.splits)
  from ok have "promises = map Inr rs"
    by (rule promise_all_InrD)
  with mp have each: "\<forall>lp \<in> set (routed b reg files). \<exists>hs. fst (Parse (snd lp)) = Fulfils hs"
    by (rule map_Parse_all_fulfilled)
  then have "\<forall>lp \<in> set (routed b reg files). \<forall>e. fst (Parse (snd lp)) \<noteq> Throws e"
    by fastforce
  then have "snd (map_Parse (routed b reg files))
        = map (\<lambda>(l, p). (l, snd (Parse p))) (routed b reg files)
      \<and> called (routed b reg files) = length (routed b reg files)"
    by (rule map_Parse_no_throw)
  with reg'0 have reg': "reg' = map (\<lambda>(l, p). (l, snd (Parse p))) (routed b reg files)"
    by simp
  have after: "snd (Parse (snd lp)) = (snd lp)\<lparr>queue := [], parseCalls := Suc (parseCalls (snd lp))\<rparr>"
    if "lp \<in> set (routed b reg files)" for lp
    using each that Parse_fulfilled by blast
  have q: "\<forall>lp \<in> set reg'. queue (snd lp) = []"
    unfolding reg' using after by (auto simp add: case_prod_unfold)
  have "?G reg' = map (\<lambda>lp. (fst lp, (snd (Parse (snd lp)))\<lparr>parseCalls := 0\<rparr>)) (routed b reg files)"
    unfolding reg' by (simp add: case_prod_unfold)
  also have "\<dots> = map (\<lambda>lp. (fst lp, (snd lp)\<lparr>queue := [], parseCalls := 0\<rparr>)) (routed b reg files)"
    using after by (simp add: map_eq_conv)
  also have "\<dots> = ?G (?C (routed b reg files))"
    by (simp add: case_prod_unfold)
  also have "?C (routed b reg files) = ?C reg"
    using foldl_route_clears [of b "[]" reg files] by (simp add: routed_def)
  also have "?C reg = reg"
  proof (rule map_idI)
    fix lp assume "lp \<in> set reg"
    with assms(1) have "queue (snd lp) = []" by blast
    then have "(snd lp)\<lparr>queue := []\<rparr> = snd lp" by (cases "snd lp") simp
    then show "(case lp of (l, p) \<Rightarrow> (l, p\<lparr>queue := []\<rparr>)) = lp"
      by (cases lp) simp
  qed
  finally have g: "?G reg' = ?G reg" .
  have "fst (ParseFiles root b reg') = fst (ParseFiles_on b reg' files)"
    using w by (simp add: ParseFiles_def)
  also have "\<dots> = fst (ParseFiles_on b (?G reg') files)"
    by (simp only: fst_ParseFiles_on_forget)
  also have "\<dots> = fst (ParseFiles_on b (?G reg) files)"
    by (simp only: g)
  also have "\<dots> = fst (ParseFiles_on b reg files)"
    by (simp only: fst_ParseFiles_on_forget)
  also have "\<dots> = Inr out"
    using on by simp
  finally show ?thesis using q by simp
qed

theorem rerun_gives_the_same_output_witness:
  "fst (ParseFiles (Dir [(''a.js'', File)]) ''/r''
         (snd (ParseFiles (Dir [(''a.js'', File)]) ''/r'' (parsers sample_grammar))))
     = Inr ([''./a.js''], [''Javascript:./a.js''])"
proof -
  have q: "\<forall>lp \<in> set (parsers sample_grammar). queue (snd lp) = []"
    by (simp add: parsers_def new_Javascript_def new_Python_def new_XMLParser_def)
  have "fst (ParseFiles (Dir [(''a.js'', File)]) ''/r'' (parsers sample_grammar))
      = Inr ([''./a.js''], [''Javascript:./a.js''])"
    by (simp add: ParseFiles_def walk_eval run_eval classify_eval)
  then have r: "ParseFiles (Dir [(''a.js'', File)]) ''/r'' (parsers sample_grammar)
      = (Inr ([''./a.js''], [''Javascript:./a.js'']),
         snd (ParseFiles (Dir [(''a.js'', File)]) ''/r'' (parsers sample_grammar)))"
    by (simp add: prod_eq_iff)
  show ?thesis
    using rerun_gives_the_same_output [OF q r] by blast
qed

end
